theory Spec2Isabelle
  imports Main "HOL-Library.AList" "HOL-Library.Sublist" "HOL-Library.Char_ord"
    "HOL-Library.List_Lexorder"
begin

section \<open>The filesystem the manager works on\<close>

text \<open>
  DarkBotManager.py is filesystem housekeeping written against \<open>pathlib\<close> and
  \<open>shutil\<close>. A path is the list of its components below the filesystem root,
  so \<open>bot_path / "logs"\<close> is \<open>bot_path @ [''logs'']\<close>. The filesystem is an
  association list from paths to entries: the order of the list is the order in
  which the operating system enumerates entries (\<open>iterdir\<close>, \<open>glob\<close>), which
  Python leaves unspecified.

  Every entry is a regular file or a directory. A regular file carries its
  content and a flag \<open>locked\<close>: a locked file is one that is in use, which the
  operating system refuses to delete or to overwrite (on Windows, a log or jar
  held open by a running bot), and is where \<open>unlink\<close>, \<open>rmtree\<close> and \<open>copy2\<close>
  raise \<open>PermissionError\<close>. Reading a locked file works. Symbolic links, pipes
  and devices, the permission bits of files and the other file metadata are not
  modelled, and name matching is case-sensitive, as \<open>pathlib\<close> does it on POSIX.
\<close>

type_synonym path = "string list"

datatype entry = File (content: string) (locked: bool) | Dir

type_synonym fs = "(path \<times> entry) list"

datatype exn =
    MissingFolder path
  | FileNotFoundError path
  | PermissionError path
  | IsADirectoryError path
  | NotADirectoryError path
  | FileExistsError path
  | SameFileError path path
  | DirectoryNotEmpty path

definition lookup :: "fs \<Rightarrow> path \<Rightarrow> entry option" where
  "lookup fs p = map_of fs p"

text \<open>\<open>Path.exists\<close>, \<open>Path.is_dir\<close>, \<open>Path.is_file\<close> and \<open>Path.name\<close>; \<open>child_of d q\<close> says that \<open>q\<close> lies directly in \<open>d\<close>.\<close>

definition path_exists :: "fs \<Rightarrow> path \<Rightarrow> bool" where
  "path_exists fs p = (lookup fs p \<noteq> None)"

definition is_dir :: "fs \<Rightarrow> path \<Rightarrow> bool" where
  "is_dir fs p = (lookup fs p = Some Dir)"

definition is_file :: "fs \<Rightarrow> path \<Rightarrow> bool" where
  "is_file fs p = (case lookup fs p of Some (File c l) \<Rightarrow> True | _ \<Rightarrow> False)"

definition name :: "path \<Rightarrow> string" where
  "name p = (if p = [] then [] else last p)"

definition child_of :: "path \<Rightarrow> path \<Rightarrow> bool" where
  "child_of d q = (q \<noteq> [] \<and> butlast q = d)"

text \<open>
  \<open>Path.exists\<close> and \<open>Path.is_dir\<close> call \<open>os.stat\<close>. They answer \<open>False\<close> when
  the path is not there, and pass every other failure on to the caller:
  \<open>PermissionError\<close> when a folder on the way to the path may not be searched by
  the user. The maintenance procedures are modelled on trees that the user may
  search. The folder enumerator looks at folders that the program has not made,
  so its model takes the list \<open>closed\<close> of the folders that the user may neither
  list nor search, and \<open>stat_exists\<close> and \<open>stat_is_dir\<close> are the two tests with
  that failure.
\<close>

definition denied :: "path list \<Rightarrow> fs \<Rightarrow> path \<Rightarrow> bool" where
  "denied closed fs p = list_ex (\<lambda>d. strict_prefix d p \<and> is_dir fs d) closed"

definition stat_exists :: "path list \<Rightarrow> fs \<Rightarrow> path \<Rightarrow> exn + bool" where
  "stat_exists closed fs p =
     (if denied closed fs p then Inl (PermissionError p) else Inr (path_exists fs p))"

definition stat_is_dir :: "path list \<Rightarrow> fs \<Rightarrow> path \<Rightarrow> exn + bool" where
  "stat_is_dir closed fs p =
     (if denied closed fs p then Inl (PermissionError p) else Inr (is_dir fs p))"

text \<open>
  A filesystem is well formed when every path has one entry, the root is a
  directory, and whatever exists lies in a directory.
\<close>

definition wf_fs :: "fs \<Rightarrow> bool" where
  "wf_fs fs = (distinct (map fst fs) \<and> map_of fs [] = Some Dir \<and>
     list_all (\<lambda>q. q = [] \<or> map_of fs (butlast q) = Some Dir) (map fst fs))"

text \<open>
  \<open>ends_with suf s\<close> is the match of the glob pattern \<open>*suf\<close> against the name
  \<open>s\<close>: \<open>*\<close> stands for any characters, none included, and \<open>pathlib\<close> gives a
  leading dot no special treatment.
\<close>

definition ends_with :: "string \<Rightarrow> string \<Rightarrow> bool" where
  "ends_with suf s = (length suf \<le> length s \<and> drop (length s - length suf) s = suf)"

text \<open>\<open>d.iterdir()\<close>, \<open>d.glob("*.jar")\<close> and \<open>d.glob("**/*.log")\<close>, as lists taken
  when the loop starts. The globs return directories with a matching name too.\<close>

definition iterdir :: "fs \<Rightarrow> path \<Rightarrow> path list" where
  "iterdir fs d = filter (child_of d) (map fst fs)"

definition glob_jar :: "fs \<Rightarrow> path \<Rightarrow> path list" where
  "glob_jar fs d = filter (\<lambda>q. child_of d q \<and> ends_with ''.jar'' (name q)) (map fst fs)"

definition rglob_log :: "fs \<Rightarrow> path \<Rightarrow> path list" where
  "rglob_log fs d =
     filter (\<lambda>q. strict_prefix d q \<and> ends_with ''.log'' (name q)) (map fst fs)"

text \<open>\<open>Path.unlink\<close>: removes a regular file that is not locked.\<close>

definition unlink :: "fs \<Rightarrow> path \<Rightarrow> exn + fs" where
  "unlink fs p =
     (case lookup fs p of
        None \<Rightarrow> Inl (FileNotFoundError p)
      | Some Dir \<Rightarrow> Inl (IsADirectoryError p)
      | Some (File c l) \<Rightarrow>
          if l then Inl (PermissionError p) else Inr (filter (\<lambda>e. fst e \<noteq> p) fs))"

text \<open>
  \<open>os.rmdir\<close>: removes a directory that has no entry left in it.
\<close>

definition rmdir :: "fs \<Rightarrow> path \<Rightarrow> exn + fs" where
  "rmdir fs p =
     (case lookup fs p of
        None \<Rightarrow> Inl (FileNotFoundError p)
      | Some (File c l) \<Rightarrow> Inl (NotADirectoryError p)
      | Some Dir \<Rightarrow>
          if iterdir fs p = [] then Inr (filter (\<lambda>e. fst e \<noteq> p) fs)
          else Inl (DirectoryNotEmpty p))"

text \<open>
  \<open>shutil.rmtree\<close> lists a directory, and for each entry in the order of the
  listing removes it, a subdirectory by the same procedure and any other entry
  with \<open>unlink\<close>, and then removes the directory itself with \<open>rmdir\<close>. It is
  called without an error handler, so the first removal that fails raises out of
  it: what has been removed by then is gone, everything else is left.
  \<open>rm_order fs d\<close> is the sequence of these removals for the tree at \<open>d\<close>, and
  \<open>rm_each\<close> carries them out until one fails.
\<close>

function rm_order :: "fs \<Rightarrow> path \<Rightarrow> path list" where
  "rm_order fs d =
     concat (map (\<lambda>c. if is_dir fs c then rm_order fs c else [c]) (iterdir fs d)) @ [d]"
  by pat_completeness auto

termination rm_order
proof (relation "measure (\<lambda>(fs, d). length (filter (strict_prefix d) (map fst fs)))")
  fix fs :: fs and d c :: path
  assume c: "c \<in> set (iterdir fs d)"
  then obtain x where x: "c = d @ [x]"
    by (cases c rule: rev_cases) (auto simp: iterdir_def child_of_def)
  let ?below = "filter (strict_prefix d) (map fst fs)"
  have "filter (strict_prefix c) (map fst fs) = filter (strict_prefix c) ?below"
    unfolding filter_filter by (rule filter_cong) (auto simp: x strict_prefix_def prefix_def)
  moreover have "c \<in> set ?below"
    using c by (auto simp: iterdir_def x strict_prefix_def)
  ultimately have "length (filter (strict_prefix c) (map fst fs)) < length ?below"
    using length_filter_less[of c ?below "strict_prefix c"] by simp
  then show "((fs, c), (fs, d)) \<in> measure (\<lambda>(fs, d). length (filter (strict_prefix d) (map fst fs)))"
    by simp
qed simp

fun rm_each :: "fs \<Rightarrow> path list \<Rightarrow> exn option \<times> fs" where
  "rm_each fs [] = (None, fs)"
| "rm_each fs (p # ps) =
     (case (if is_dir fs p then rmdir fs p else unlink fs p) of
        Inl e \<Rightarrow> (Some e, fs)
      | Inr fs' \<Rightarrow> rm_each fs' ps)"

definition rmtree :: "fs \<Rightarrow> path \<Rightarrow> exn option \<times> fs" where
  "rmtree fs p =
     (case lookup fs p of
        None \<Rightarrow> (Some (FileNotFoundError p), fs)
      | Some (File c l) \<Rightarrow> (Some (NotADirectoryError p), fs)
      | Some Dir \<Rightarrow> rm_each fs (rm_order fs p))"


text \<open>
  \<open>Path.mkdir(parents=True, exist_ok=True)\<close>: an existing directory is kept, an
  existing file raises, a missing directory is created below its parent, which
  is created first where it is missing too.
\<close>

fun mkdir_parents :: "fs \<Rightarrow> path \<Rightarrow> exn + fs" where
  "mkdir_parents fs p =
     (case lookup fs p of
        Some Dir \<Rightarrow> Inr fs
      | Some (File c l) \<Rightarrow> Inl (FileExistsError p)
      | None \<Rightarrow>
          (if p = [] then Inr (AList.update p Dir fs)
           else (case lookup fs (butlast p) of
                   Some (File c l) \<Rightarrow> Inl (NotADirectoryError p)
                 | Some Dir \<Rightarrow> Inr (AList.update p Dir fs)
                 | None \<Rightarrow>
                     (case mkdir_parents fs (butlast p) of
                        Inl e \<Rightarrow> Inl e
                      | Inr fs' \<Rightarrow> Inr (AList.update p Dir fs')))))"

text \<open>
  Opening a path for writing fails when its folder is not a directory. The
  error is decided by the first component on the way that is not a directory:
  \<open>NotADirectoryError\<close> when that is a regular file, \<open>FileNotFoundError\<close> when
  nothing is there.
\<close>

definition open_error :: "fs \<Rightarrow> path \<Rightarrow> exn" where
  "open_error fs p =
     (case find (\<lambda>d. \<not> is_dir fs d) (prefixes (butlast p)) of
        Some d \<Rightarrow> if is_file fs d then NotADirectoryError p else FileNotFoundError p
      | None \<Rightarrow> FileNotFoundError p)"

text \<open>
  \<open>shutil.copy2(src, dst)\<close>: when \<open>dst\<close> is a directory the file goes into it
  under the source's name; copying a file onto itself raises \<open>SameFileError\<close>;
  the destination's folder must exist; a locked destination is not overwritten.
  The copy is a file of its own, in use by nobody.
\<close>

definition copy2 :: "fs \<Rightarrow> path \<Rightarrow> path \<Rightarrow> exn + fs" where
  "copy2 fs src dst =
     (let dst' = (if is_dir fs dst then dst @ [name src] else dst) in
      case lookup fs src of
        None \<Rightarrow> Inl (FileNotFoundError src)
      | Some Dir \<Rightarrow> Inl (IsADirectoryError src)
      | Some (File c l) \<Rightarrow>
          if src = dst' then Inl (SameFileError src dst')
          else (case lookup fs dst' of
                  Some Dir \<Rightarrow> Inl (IsADirectoryError dst')
                | Some (File c' l') \<Rightarrow>
                    if l' then Inl (PermissionError dst')
                    else Inr (AList.update dst' (File c False) fs)
                | None \<Rightarrow>
                    if dst' \<noteq> [] \<and> is_dir fs (butlast dst')
                    then Inr (AList.update dst' (File c False) fs)
                    else Inl (open_error fs dst')))"

declare mkdir_parents.simps [simp del]

declare rm_order.simps [simp del]

section \<open>The window's state\<close>

text \<open>
  The methods of \<open>DarkBotManagerGUI\<close> act on the filesystem and on the widgets of
  the window: the log area, the progress bar, the list of bot folders and the
  message boxes shown. The two source paths of the configuration are read from
  \<open>self.cfg\<close>. One line of the log is its tag and its message; the messages are
  kept as the source formats them, by what they say and the values they embed,
  not as text.
\<close>

datatype level = Info | Success | Warn | Error

datatype msg =
    DidNotRemoveLogFile path exn
  | RemovedLogFiles nat path
  | NoLogsFolder path
  | DidNotRemove path exn
  | RemovedJarFiles nat path
  | NoPluginsOldFolder path
  | RemovedElements nat path
  | CreatedFolder path
  | FailedToCreate path exn
  | CopiedDarkBot path
  | FailedToCopyDarkBot path exn
  | InvalidDarkBotJar path
  | SkippedDarkBotInPlugins string
  | FailedToCopy path path exn
  | CopiedPlugins nat path
  | InvalidPluginFolder path
  | DidNotDeleteLogFile path exn
  | MissingLogsFolder path
  | DidNotDelete path exn
  | MissingPluginsOldFolder path
  | OperationStart nat
  | Processing nat nat path
  | Completed nat nat path
  | ErrorProcessing nat nat path exn
  | Traceback exn
  | OperationCompleted nat
  | OperationCompletedWithErrors nat
  | NoBotRoot
  | LoadedBots nat path

datatype dialog = DoneDialog

record world =
  files :: fs
  log :: "(level \<times> msg) list"
  progress_value :: nat
  progress_maximum :: nat
  listbox :: "path list"
  dialogs :: "dialog list"
  darkbot_jar_path :: path
  plugin_updates_folder :: path

definition log_info :: "msg \<Rightarrow> world \<Rightarrow> world" where
  "log_info m w = w\<lparr>log := log w @ [(Info, m)]\<rparr>"

definition log_success :: "msg \<Rightarrow> world \<Rightarrow> world" where
  "log_success m w = w\<lparr>log := log w @ [(Success, m)]\<rparr>"

definition log_warn :: "msg \<Rightarrow> world \<Rightarrow> world" where
  "log_warn m w = w\<lparr>log := log w @ [(Warn, m)]\<rparr>"

definition log_error :: "msg \<Rightarrow> world \<Rightarrow> world" where
  "log_error m w = w\<lparr>log := log w @ [(Error, m)]\<rparr>"

definition showinfo :: "dialog \<Rightarrow> world \<Rightarrow> world" where
  "showinfo d w = w\<lparr>dialogs := dialogs w @ [d]\<rparr>"

section \<open>The bot-folder heuristic\<close>

text \<open>
  \<open>is_bot_folder(p)\<close>: the test \<open>p.is_dir()\<close>, then
  \<open>(p / "logs").exists() or (p / "plugins").exists()\<close>, whose second operand is
  evaluated when the first is false, and \<open>True\<close> whatever that test says. Each
  of the three calls may raise.
\<close>

definition is_bot_folder :: "path list \<Rightarrow> fs \<Rightarrow> path \<Rightarrow> exn + bool" where
  "is_bot_folder closed fs p =
     (case stat_is_dir closed fs p of
        Inl e \<Rightarrow> Inl e
      | Inr d \<Rightarrow>
          if \<not> d then Inr False
          else (case stat_exists closed fs (p @ [''logs'']) of
                  Inl e \<Rightarrow> Inl e
                | Inr has_logs \<Rightarrow>
                    if has_logs then Inr True
                    else (case stat_exists closed fs (p @ [''plugins'']) of
                            Inl e \<Rightarrow> Inl e
                          | Inr has_plugins \<Rightarrow> if has_plugins then Inr True else Inr True)))"

section \<open>The per-folder maintenance procedure\<close>

text \<open>
  \<open>process_single_bot\<close> is one method; its body is the check of the folder and
  five commented blocks, each modelled as a function of its own and composed in
  the order of the source. The loops
  \<^verbatim>\<open>for f in ...: try: f.unlink(); removed += 1  except Exception as e: self.log_warn(...)\<close>
  occur four times in the source with different warnings; \<open>unlink_loop\<close> is that
  loop with the warning as a parameter.
\<close>

fun unlink_loop :: "(path \<Rightarrow> exn \<Rightarrow> msg) \<Rightarrow> path list \<Rightarrow> world \<Rightarrow> nat \<Rightarrow> world \<times> nat" where
  "unlink_loop warning [] w removed = (w, removed)"
| "unlink_loop warning (f # rest) w removed =
     (case unlink (files w) f of
        Inr fs' \<Rightarrow> unlink_loop warning rest (w\<lparr>files := fs'\<rparr>) (removed + 1)
      | Inl e \<Rightarrow> unlink_loop warning rest (log_warn (warning f e) w) removed)"

text \<open>Block 1 of the source (step 2 of the procedure): the \<open>.log\<close> files below \<open>logs\<close>.\<close>

definition purge_logs :: "path \<Rightarrow> world \<Rightarrow> world" where
  "purge_logs bot_path w =
     (let logs_dir = bot_path @ [''logs''] in
      if path_exists (files w) logs_dir \<and> is_dir (files w) logs_dir then
        (case unlink_loop DidNotRemoveLogFile (rglob_log (files w) logs_dir) w 0 of
           (w', removed) \<Rightarrow> log_info (RemovedLogFiles removed logs_dir) w')
      else log_warn (NoLogsFolder bot_path) w)"

text \<open>Block 2 (step 3): the \<open>.jar\<close> files directly in \<open>plugins/old\<close>.\<close>

definition purge_old_plugins :: "path \<Rightarrow> world \<Rightarrow> world" where
  "purge_old_plugins bot_path w =
     (let plugins_old = bot_path @ [''plugins'', ''old''] in
      if path_exists (files w) plugins_old \<and> is_dir (files w) plugins_old then
        (case unlink_loop DidNotRemove (glob_jar (files w) plugins_old) w 0 of
           (w', removed) \<Rightarrow> log_info (RemovedJarFiles removed plugins_old) w')
      else log_warn (NoPluginsOldFolder bot_path) w)"

text \<open>Block 3 (step 4): empty \<open>plugins/updates\<close>, or create it.\<close>

fun clear_loop :: "path list \<Rightarrow> world \<Rightarrow> nat \<Rightarrow> world \<times> nat" where
  "clear_loop [] w removed = (w, removed)"
| "clear_loop (p # rest) w removed =
     (if is_file (files w) p then
        (case unlink (files w) p of
           Inr fs' \<Rightarrow> clear_loop rest (w\<lparr>files := fs'\<rparr>) (removed + 1)
         | Inl e \<Rightarrow> clear_loop rest (log_warn (DidNotRemove p e) w) removed)
      else if is_dir (files w) p then
        (case rmtree (files w) p of
           (None, fs') \<Rightarrow> clear_loop rest (w\<lparr>files := fs'\<rparr>) (removed + 1)
         | (Some e, fs') \<Rightarrow>
             clear_loop rest (log_warn (DidNotRemove p e) (w\<lparr>files := fs'\<rparr>)) removed)
      else clear_loop rest w removed)"

definition reset_updates :: "path \<Rightarrow> world \<Rightarrow> world" where
  "reset_updates bot_path w =
     (let plugins_updates = bot_path @ [''plugins'', ''updates''] in
      if path_exists (files w) plugins_updates \<and> is_dir (files w) plugins_updates then
        (case clear_loop (iterdir (files w) plugins_updates) w 0 of
           (w', removed) \<Rightarrow> log_info (RemovedElements removed plugins_updates) w')
      else
        (case mkdir_parents (files w) plugins_updates of
           Inr fs' \<Rightarrow> log_info (CreatedFolder plugins_updates) (w\<lparr>files := fs'\<rparr>)
         | Inl e \<Rightarrow> log_warn (FailedToCreate plugins_updates e) w))"

text \<open>
  Block 4 (step 5a): the application jar. The source's test starts with
  \<open>darkjar_src and ...\<close>; a \<open>Path\<close> object is always true, so that conjunct
  decides nothing.
\<close>

definition copy_darkbot_jar :: "path \<Rightarrow> path \<Rightarrow> world \<Rightarrow> world" where
  "copy_darkbot_jar bot_path darkjar_src w =
     (if path_exists (files w) darkjar_src \<and> is_file (files w) darkjar_src
         \<and> name darkjar_src = ''DarkBot.jar'' then
        (let dest = bot_path @ [''DarkBot.jar''] in
         case copy2 (files w) darkjar_src dest of
           Inr fs' \<Rightarrow> log_info (CopiedDarkBot dest) (w\<lparr>files := fs'\<rparr>)
         | Inl e \<Rightarrow> log_warn (FailedToCopyDarkBot bot_path e) w)
      else log_warn (InvalidDarkBotJar darkjar_src) w)"

text \<open>Block 5 (step 5b): the plugin jars.\<close>

fun copy_loop :: "path \<Rightarrow> path list \<Rightarrow> world \<Rightarrow> nat \<Rightarrow> world \<times> nat" where
  "copy_loop plugins_updates [] w copied = (w, copied)"
| "copy_loop plugins_updates (jar # rest) w copied =
     (if name jar = ''DarkBot.jar'' then
        copy_loop plugins_updates rest (log_warn (SkippedDarkBotInPlugins (name jar)) w) copied
      else
        (case copy2 (files w) jar (plugins_updates @ [name jar]) of
           Inr fs' \<Rightarrow> copy_loop plugins_updates rest (w\<lparr>files := fs'\<rparr>) (copied + 1)
         | Inl e \<Rightarrow>
             copy_loop plugins_updates rest
               (log_warn (FailedToCopy jar plugins_updates e) w) copied))"

definition copy_plugin_jars :: "path \<Rightarrow> path \<Rightarrow> world \<Rightarrow> world" where
  "copy_plugin_jars bot_path plugin_src_folder w =
     (let plugins_updates = bot_path @ [''plugins'', ''updates''] in
      if path_exists (files w) plugin_src_folder \<and> is_dir (files w) plugin_src_folder then
        (case copy_loop plugins_updates (glob_jar (files w) plugin_src_folder) w 0 of
           (w', copied) \<Rightarrow> log_info (CopiedPlugins copied plugins_updates) w')
      else log_warn (InvalidPluginFolder plugin_src_folder) w)"

text \<open>
  The method: \<open>(Some e, w)\<close> is the exception \<open>e\<close> raised in the state \<open>w\<close>,
  \<open>(None, w)\<close> the normal return.
\<close>

definition process_single_bot :: "path \<Rightarrow> path \<Rightarrow> path \<Rightarrow> world \<Rightarrow> exn option \<times> world" where
  "process_single_bot bot_path darkjar_src plugin_src_folder w =
     (if \<not> path_exists (files w) bot_path \<or> \<not> is_dir (files w) bot_path then
        (Some (MissingFolder bot_path), w)
      else
        (None,
         copy_plugin_jars bot_path plugin_src_folder
           (copy_darkbot_jar bot_path darkjar_src
             (reset_updates bot_path
               (purge_old_plugins bot_path
                 (purge_logs bot_path w))))))"

section \<open>The log-only procedure\<close>

definition clear_single_bot :: "path \<Rightarrow> world \<Rightarrow> exn option \<times> world" where
  "clear_single_bot bot_path w =
     (if \<not> path_exists (files w) bot_path \<or> \<not> is_dir (files w) bot_path then
        (Some (MissingFolder bot_path), w)
      else
        (let logs = bot_path @ [''logs''];
             w1 = (if path_exists (files w) logs \<and> is_dir (files w) logs then
                     (case unlink_loop DidNotDeleteLogFile (rglob_log (files w) logs) w 0 of
                        (w', removed) \<Rightarrow> log_info (RemovedLogFiles removed logs) w')
                   else log_warn (MissingLogsFolder bot_path) w);
             old = bot_path @ [''plugins'', ''old''];
             w2 = (if path_exists (files w1) old \<and> is_dir (files w1) old then
                     (case unlink_loop DidNotDelete (glob_jar (files w1) old) w1 0 of
                        (w', removed) \<Rightarrow> log_info (RemovedJarFiles removed old) w')
                   else log_warn (MissingPluginsOldFolder bot_path) w1)
         in (None, w2)))"

section \<open>The batch runner\<close>

text \<open>
  \<open>_run_worker\<close>: the loop over \<open>enumerate(bot_paths, start=1)\<close>, with the
  \<open>try\<close>/\<open>except Exception\<close>/\<open>finally\<close> around one folder. \<open>idx\<close> is the
  index of the folder at the head of the list.
\<close>

fun worker_loop :: "path \<Rightarrow> path \<Rightarrow> nat \<Rightarrow> nat \<Rightarrow> path list \<Rightarrow> world \<Rightarrow> nat \<Rightarrow> world \<times> nat" where
  "worker_loop darkjar plugin_src total_count idx [] w errors = (w, errors)"
| "worker_loop darkjar plugin_src total_count idx (bp # rest) w errors =
     (case process_single_bot bp darkjar plugin_src (log_info (Processing idx total_count bp) w) of
        (None, w') \<Rightarrow>
          worker_loop darkjar plugin_src total_count (idx + 1) rest
            ((log_success (Completed idx total_count bp) w')\<lparr>progress_value := idx\<rparr>) errors
      | (Some e, w') \<Rightarrow>
          worker_loop darkjar plugin_src total_count (idx + 1) rest
            ((log_info (Traceback e) (log_error (ErrorProcessing idx total_count bp e) w'))
               \<lparr>progress_value := idx\<rparr>) (errors + 1))"

definition run_worker :: "path list \<Rightarrow> world \<Rightarrow> world" where
  "run_worker bot_paths w =
     (let total_count = length bot_paths;
          w0 = log_info (OperationStart total_count) (w\<lparr>progress_value := 0, progress_maximum := total_count\<rparr>);
          darkjar = darkbot_jar_path w;
          plugin_src = plugin_updates_folder w
      in case worker_loop darkjar plugin_src total_count 1 bot_paths w0 0 of
           (w', errors) \<Rightarrow>
             showinfo DoneDialog
               (if errors = 0 then log_success (OperationCompleted total_count) w'
                else log_warn (OperationCompletedWithErrors errors) w'))"

section \<open>The folder enumerator\<close>

text \<open>
  A character of the model is one of the code points 0 to 255. On these
  \<open>str.lower\<close> moves the letters A to Z and the capital letters of Latin-1
  (192 to 222, without the multiplication sign 215) up by 32 and leaves every
  other character. Names are compared as Python compares strings, character by
  character, a proper prefix first.
\<close>

definition lower_char :: "char \<Rightarrow> char" where
  "lower_char c =
     (let n = (of_char c :: nat) in
      if (65 \<le> n \<and> n \<le> 90) \<or> (192 \<le> n \<and> n \<le> 222 \<and> n \<noteq> 215) then char_of (n + 32) else c)"

definition lower :: "string \<Rightarrow> string" where
  "lower s = map lower_char s"

text \<open>
  The loop \<^verbatim>\<open>for p in children: if is_bot_folder(p): self.listbox.insert(END, str(p))\<close>.
  An exception of \<open>is_bot_folder\<close> ends it, with the list as far as it was
  filled.
\<close>

fun insert_all :: "path list \<Rightarrow> fs \<Rightarrow> path list \<Rightarrow> world \<Rightarrow> exn option \<times> world" where
  "insert_all closed fs [] w = (None, w)"
| "insert_all closed fs (p # rest) w =
     (case is_bot_folder closed fs p of
        Inl e \<Rightarrow> (Some e, w)
      | Inr b \<Rightarrow>
          insert_all closed fs rest (if b then w\<lparr>listbox := listbox w @ [p]\<rparr> else w))"

text \<open>
  \<open>refresh_bot_list\<close>. \<open>bots_root\<close> is the local variable of that name:
  \<open>None\<close> when the entry field is blank, the path typed there otherwise.
  \<open>Path.iterdir\<close> raises \<open>NotADirectoryError\<close> on a path that is not a
  directory and \<open>PermissionError\<close> on a folder that may not be listed, and the
  method has no handler for either. The test \<open>p.is_dir()\<close> on an entry of the
  listing cannot fail for want of permission: the folder it lies in has just
  been listed.
\<close>

definition refresh_bot_list :: "path list \<Rightarrow> path option \<Rightarrow> world \<Rightarrow> exn option \<times> world" where
  "refresh_bot_list closed bots_root w =
     (let w0 = w\<lparr>listbox := []\<rparr> in
      case bots_root of
        None \<Rightarrow> (None, log_warn NoBotRoot w0)
      | Some root \<Rightarrow>
          (case stat_exists closed (files w0) root of
             Inl e \<Rightarrow> (Some e, w0)
           | Inr there \<Rightarrow>
               if \<not> there then (None, log_warn NoBotRoot w0)
               else if \<not> is_dir (files w0) root then (Some (NotADirectoryError root), w0)
               else if root \<in> set closed then (Some (PermissionError root), w0)
               else
                 (let children =
                        sort_key (\<lambda>p. lower (name p))
                          (filter (is_dir (files w0)) (iterdir (files w0) root))
                  in case insert_all closed (files w0) children w0 of
                       (Some e, w1) \<Rightarrow> (Some e, w1)
                     | (None, w1) \<Rightarrow>
                         (None, log_info (LoadedBots (length (listbox w1)) root) w1))))"

section \<open>Notions used to state the properties\<close>

text \<open>A file that \<open>unlink\<close> removes: a regular file that is not locked.\<close>

definition removable :: "fs \<Rightarrow> path \<Rightarrow> bool" where
  "removable fs q = (case lookup fs q of Some (File c l) \<Rightarrow> \<not> l | _ \<Rightarrow> False)"


subsection \<open>The lines of the log\<close>

text \<open>
  \<open>step_msg\<close> holds of the lines that \<open>process_single_bot\<close> and
  \<open>clear_single_bot\<close> write, not of those of the batch runner and of the
  enumerator. \<open>log_ext w w'\<close> says that \<open>w'\<close> is \<open>w\<close> with such lines appended
  to the log and maybe other files, the widgets and the configuration untouched.
\<close>

definition step_msg :: "msg \<Rightarrow> bool" where
  "step_msg m = (case m of
       OperationStart n \<Rightarrow> False
     | Processing i n p \<Rightarrow> False
     | Completed i n p \<Rightarrow> False
     | ErrorProcessing i n p e \<Rightarrow> False
     | Traceback e \<Rightarrow> False
     | OperationCompleted n \<Rightarrow> False
     | OperationCompletedWithErrors n \<Rightarrow> False
     | NoBotRoot \<Rightarrow> False
     | LoadedBots n p \<Rightarrow> False
     | _ \<Rightarrow> True)"

definition log_ext :: "world \<Rightarrow> world \<Rightarrow> bool" where
  "log_ext w w' = ((\<exists>xs. log w' = log w @ xs \<and> list_all (\<lambda>e. step_msg (snd e)) xs)
     \<and> progress_value w' = progress_value w \<and> progress_maximum w' = progress_maximum w
     \<and> listbox w' = listbox w \<and> dialogs w' = dialogs w
     \<and> darkbot_jar_path w' = darkbot_jar_path w
     \<and> plugin_updates_folder w' = plugin_updates_folder w)"

text \<open>
  The lines of the batch runner: the announcement of a folder, the report of a
  failure, and, for both the announcement (\<open>False\<close>) and the conclusion (\<open>True\<close>)
  of a folder, its index and path.
\<close>

definition is_processing :: "level \<times> msg \<Rightarrow> bool" where
  "is_processing e = (case snd e of Processing i n p \<Rightarrow> True | _ \<Rightarrow> False)"

definition is_error :: "level \<times> msg \<Rightarrow> bool" where
  "is_error e = (case snd e of ErrorProcessing i n p x \<Rightarrow> True | _ \<Rightarrow> False)"

definition attempt_key :: "level \<times> msg \<Rightarrow> (bool \<times> nat \<times> path) option" where
  "attempt_key e =
     (case snd e of
        Processing i n p \<Rightarrow> Some (False, i, p)
      | Completed i n p \<Rightarrow> Some (True, i, p)
      | ErrorProcessing i n p x \<Rightarrow> Some (True, i, p)
      | _ \<Rightarrow> None)"

text \<open>
  The line that concludes a folder: \<open>Completed\<close> after a normal return,
  \<open>Error processing\<close> with the exception after a raise.
\<close>

definition is_conclusion :: "level \<times> msg \<Rightarrow> bool" where
  "is_conclusion e =
     (case snd e of Completed i n p \<Rightarrow> True | ErrorProcessing i n p x \<Rightarrow> True | _ \<Rightarrow> False)"

definition conclusion :: "nat \<Rightarrow> (nat \<times> path) \<times> exn option \<Rightarrow> level \<times> msg" where
  "conclusion n x =
     (case x of
        ((i, bp), None) \<Rightarrow> (Success, Completed i n bp)
      | ((i, bp), Some e) \<Rightarrow> (Error, ErrorProcessing i n bp e))"

subsection \<open>The filesystem as a map\<close>

text \<open>
  What the blocks of \<open>process_single_bot\<close> do to the filesystem depends on the
  entry at each path only, not on the order of enumeration. The following
  functions on the map from paths to entries say, block by block, what that is;
  that they do is proved below (lemmas \<open>purge_logs_map\<close> to
  \<open>process_single_bot_map\<close>), and the properties of the procedure that hold for
  every filesystem are then proved on them. They are not part of the model of
  the code.
\<close>

type_synonym pmap = "path \<Rightarrow> entry option"

definition unlocked :: "pmap \<Rightarrow> path \<Rightarrow> bool" where
  "unlocked m p = (\<exists>c. m p = Some (File c False))"

definition locked_at :: "pmap \<Rightarrow> path \<Rightarrow> bool" where
  "locked_at m p = (\<exists>c. m p = Some (File c True))"

definition regular :: "pmap \<Rightarrow> path \<Rightarrow> bool" where
  "regular m p = (\<exists>c l. m p = Some (File c l))"

text \<open>
  An entry directly in \<open>plugins/updates\<close> that step 4 removes, and the paths
  that go with it.
\<close>

definition clearable :: "pmap \<Rightarrow> path \<Rightarrow> bool" where
  "clearable m c = (unlocked m c \<or> (m c = Some Dir \<and> (\<forall>r. prefix c r \<longrightarrow> \<not> locked_at m r)))"

definition cleared :: "pmap \<Rightarrow> path \<Rightarrow> path \<Rightarrow> bool" where
  "cleared m c q = (clearable m c \<and> (q = c \<or> (m c = Some Dir \<and> prefix c q)))"

definition logs_map :: "path \<Rightarrow> pmap \<Rightarrow> pmap" where
  "logs_map bp m =
     (\<lambda>q. if m (bp @ [''logs'']) = Some Dir \<and> strict_prefix (bp @ [''logs'']) q
              \<and> ends_with ''.log'' (name q) \<and> unlocked m q
           then None else m q)"

definition old_map :: "path \<Rightarrow> pmap \<Rightarrow> pmap" where
  "old_map bp m =
     (\<lambda>q. if m (bp @ [''plugins'', ''old'']) = Some Dir \<and> child_of (bp @ [''plugins'', ''old'']) q
              \<and> ends_with ''.jar'' (name q) \<and> unlocked m q
           then None else m q)"

definition updates_map :: "path \<Rightarrow> pmap \<Rightarrow> pmap" where
  "updates_map bp m =
     (if m (bp @ [''plugins'', ''updates'']) = Some Dir then
        (\<lambda>q. if \<exists>c. child_of (bp @ [''plugins'', ''updates'']) c \<and> cleared m c q then None
              else m q)
      else if m (bp @ [''plugins'', ''updates'']) = None \<and> \<not> regular m (bp @ [''plugins''])
      then m(bp @ [''plugins''] \<mapsto> Dir, bp @ [''plugins'', ''updates''] \<mapsto> Dir)
      else m)"

text \<open>Where \<open>copy2\<close> writes, and when it succeeds.\<close>

definition target :: "pmap \<Rightarrow> path \<Rightarrow> path \<Rightarrow> path" where
  "target m src dst = (if m dst = Some Dir then dst @ [name src] else dst)"

definition copy_ok :: "pmap \<Rightarrow> path \<Rightarrow> path \<Rightarrow> bool" where
  "copy_ok m src dst =
     (regular m src \<and> src \<noteq> target m src dst
      \<and> (unlocked m (target m src dst)
          \<or> (m (target m src dst) = None \<and> target m src dst \<noteq> []
              \<and> m (butlast (target m src dst)) = Some Dir)))"

definition copy_map :: "pmap \<Rightarrow> path \<Rightarrow> path \<Rightarrow> pmap" where
  "copy_map m src dst =
     (if copy_ok m src dst
      then m(target m src dst \<mapsto> File (content (the (m src))) False) else m)"

definition darkbot_map :: "path \<Rightarrow> path \<Rightarrow> pmap \<Rightarrow> pmap" where
  "darkbot_map bp dj m =
     (if regular m dj \<and> name dj = ''DarkBot.jar'' then copy_map m dj (bp @ [''DarkBot.jar''])
      else m)"

definition plugin_write :: "path \<Rightarrow> pmap \<Rightarrow> path \<Rightarrow> path \<Rightarrow> bool" where
  "plugin_write u m j q =
     (name j \<noteq> ''DarkBot.jar'' \<and> copy_ok m j (u @ [name j]) \<and> q = target m j (u @ [name j]))"

definition plugins_map :: "path \<Rightarrow> path \<Rightarrow> pmap \<Rightarrow> pmap" where
  "plugins_map bp ps m =
     (if m ps = Some Dir then
        (\<lambda>q. if \<exists>j. child_of ps j \<and> ends_with ''.jar'' (name j)
                    \<and> plugin_write (bp @ [''plugins'', ''updates'']) m j q
              then Some (File (content (the (m (ps @ [name q])))) False)
              else m q)
      else m)"

definition process_map :: "path \<Rightarrow> path \<Rightarrow> path \<Rightarrow> pmap \<Rightarrow> pmap" where
  "process_map bp dj ps m =
     plugins_map bp ps (darkbot_map bp dj (updates_map bp (old_map bp (logs_map bp m))))"

text \<open>Well-formedness of the map, and what the two purges would still remove.\<close>

definition wf_map :: "pmap \<Rightarrow> bool" where
  "wf_map m = (\<forall>q. q \<noteq> [] \<and> m q \<noteq> None \<longrightarrow> m (butlast q) = Some Dir)"

definition logs_left :: "path \<Rightarrow> pmap \<Rightarrow> path \<Rightarrow> bool" where
  "logs_left bp m q = (m (bp @ [''logs'']) = Some Dir \<and> strict_prefix (bp @ [''logs'']) q
     \<and> ends_with ''.log'' (name q) \<and> unlocked m q)"

definition jars_left :: "path \<Rightarrow> pmap \<Rightarrow> path \<Rightarrow> bool" where
  "jars_left bp m q = (m (bp @ [''plugins'', ''old'']) = Some Dir
     \<and> child_of (bp @ [''plugins'', ''old'']) q \<and> ends_with ''.jar'' (name q) \<and> unlocked m q)"

subsection \<open>Example filesystems\<close>

text \<open>A window that has logged nothing yet, over a given filesystem.\<close>

definition world_of :: "fs \<Rightarrow> world" where
  "world_of fs = \<lparr>files = fs, log = [], progress_value = 0, progress_maximum = 0,
     listbox = [], dialogs = [], darkbot_jar_path = [''src'', ''DarkBot.jar''],
     plugin_updates_folder = [''src'', ''plugins'']\<rparr>"

text \<open>
  Processing a list of folders one after the other: \<open>bot_result\<close> is what one
  call of \<open>process_single_bot\<close> raises and the filesystem it leaves, \<open>runs\<close>
  are the outcomes for a list of folders, each folder processed once, on the
  filesystem its predecessor left, and the filesystem after the last.
\<close>

definition bot_result :: "path \<Rightarrow> path \<Rightarrow> path \<Rightarrow> fs \<Rightarrow> exn option \<times> fs" where
  "bot_result darkjar plugin_src bp fs =
     (case process_single_bot bp darkjar plugin_src (world_of fs) of (r, w') \<Rightarrow> (r, files w'))"

fun runs :: "path \<Rightarrow> path \<Rightarrow> path list \<Rightarrow> fs \<Rightarrow> exn option list \<times> fs" where
  "runs darkjar plugin_src [] fs = ([], fs)"
| "runs darkjar plugin_src (bp # rest) fs =
     (case bot_result darkjar plugin_src bp fs of
        (r, fs') \<Rightarrow> (case runs darkjar plugin_src rest fs' of (rs, fs'') \<Rightarrow> (r # rs, fs'')))"

text \<open>
  A bot folder \<open>/bots/b1\<close> whose \<open>logs\<close> folder holds two \<open>.log\<close> files, one
  of them in use, a text file and a dated subfolder, and one more \<open>.log\<close> file
  under \<open>plugins\<close>. It has no \<open>plugins/updates\<close>.
\<close>

definition b1 :: path where
  "b1 = [''bots'', ''b1'']"

definition logs_fs :: fs where
  "logs_fs =
     [([], Dir), ([''bots''], Dir), ([''bots'', ''b1''], Dir),
      ([''bots'', ''b1'', ''logs''], Dir),
      ([''bots'', ''b1'', ''logs'', ''a.log''], File ''a'' False),
      ([''bots'', ''b1'', ''logs'', ''run.log''], File ''r'' True),
      ([''bots'', ''b1'', ''logs'', ''keep.txt''], File ''k'' False),
      ([''bots'', ''b1'', ''logs'', ''2024''], Dir),
      ([''bots'', ''b1'', ''logs'', ''2024'', ''z.log''], File ''z'' False),
      ([''bots'', ''b1'', ''plugins''], Dir),
      ([''bots'', ''b1'', ''plugins'', ''x.log''], File ''x'' False)]"

text \<open>
  The same bot folder with its jar, a log, an old plugin and a stale update,
  and a source folder \<open>/src\<close> with the new jar, a jar under another name and
  the plugin jars, \<open>DarkBot.jar\<close> among them.
\<close>

definition bot_fs :: fs where
  "bot_fs =
     [([], Dir), ([''bots''], Dir), ([''bots'', ''b1''], Dir),
      ([''bots'', ''b1'', ''DarkBot.jar''], File ''v1'' False),
      ([''bots'', ''b1'', ''logs''], Dir),
      ([''bots'', ''b1'', ''logs'', ''a.log''], File ''a'' False),
      ([''bots'', ''b1'', ''plugins''], Dir),
      ([''bots'', ''b1'', ''plugins'', ''old''], Dir),
      ([''bots'', ''b1'', ''plugins'', ''old'', ''p.jar''], File ''p'' False),
      ([''bots'', ''b1'', ''plugins'', ''updates''], Dir),
      ([''bots'', ''b1'', ''plugins'', ''updates'', ''stale.jar''], File ''s'' False),
      ([''src''], Dir),
      ([''src'', ''DarkBot.jar''], File ''v2'' False),
      ([''src'', ''notdarkbot.jar''], File ''v3'' False),
      ([''src'', ''plugins''], Dir),
      ([''src'', ''plugins'', ''a.jar''], File ''pa'' False),
      ([''src'', ''plugins'', ''b.jar''], File ''pb'' False),
      ([''src'', ''plugins'', ''DarkBot.jar''], File ''v0'' False),
      ([''src'', ''plugins'', ''notes.txt''], File ''n'' False)]"


section \<open>Lemmas about the filesystem operations\<close>

lemma files_log [simp]:
  "files (log_info m w) = files w" "files (log_warn m w) = files w"
  "files (log_success m w) = files w" "files (log_error m w) = files w"
  "files (showinfo d w) = files w"
  by (simp_all add: log_info_def log_warn_def log_success_def log_error_def showinfo_def)

lemma map_of_filter_key:
  "map_of (filter (\<lambda>e. P (fst e)) fs) q = (if P q then map_of fs q else None)"
  by (induction fs) auto

lemma map_of_filter_neq:
  "map_of (filter (\<lambda>e. fst e \<noteq> p) fs) q = (if q = p then None else map_of fs q)"
  using map_of_filter_key[of "\<lambda>k. k \<noteq> p" fs q] by simp

lemma map_of_filter_not_prefix:
  "map_of (filter (\<lambda>e. \<not> prefix p (fst e)) fs) q = (if prefix p q then None else map_of fs q)"
  using map_of_filter_key[of "\<lambda>k. \<not> prefix p k" fs q] by simp

lemma unlink_cases:
  "unlink fs p =
     (if removable fs p then Inr (filter (\<lambda>e. fst e \<noteq> p) fs)
      else Inl (case lookup fs p of None \<Rightarrow> FileNotFoundError p
                | Some Dir \<Rightarrow> IsADirectoryError p | Some (File c l) \<Rightarrow> PermissionError p))"
  by (simp add: unlink_def removable_def split: option.splits entry.splits)

lemma lookup_unlink:
  "unlink fs p = Inr fs' \<Longrightarrow> lookup fs' q = (if q = p then None else lookup fs q)"
  by (auto simp: unlink_cases lookup_def map_of_filter_neq split: if_splits)

lemma removable_dom: "removable fs q \<Longrightarrow> q \<in> fst ` set fs"
  by (auto simp: removable_def lookup_def split: option.splits
      dest: map_of_SomeD intro: rev_image_eqI)

lemma removable_is_file: "removable fs q \<Longrightarrow> is_file fs q"
  by (auto simp: removable_def is_file_def split: option.splits entry.splits)

subsection \<open>The deletion loop\<close>

text \<open>
  Whatever the order of the list, the loop removes the files of the list that
  can be removed and nothing else.
\<close>

lemma unlink_loop_lookup:
  "unlink_loop warning ps w n = (w', n') \<Longrightarrow>
   lookup (files w') q =
     (if q \<in> set ps \<and> removable (files w) q then None else lookup (files w) q)"
proof (induction ps arbitrary: w n)
  case Nil
  then show ?case by simp
next
  case (Cons f rest)
  show ?case
  proof (cases "removable (files w) f")
    case True
    then obtain fs' where u: "unlink (files w) f = Inr fs'"
      by (simp add: unlink_cases)
    with Cons.prems have "unlink_loop warning rest (w\<lparr>files := fs'\<rparr>) (n + 1) = (w', n')"
      by simp
    from Cons.IH[OF this] lookup_unlink[OF u] True show ?thesis
      by (auto simp: removable_def)
  next
    case False
    then obtain e where u: "unlink (files w) f = Inl e"
      by (simp add: unlink_cases)
    with Cons.prems have "unlink_loop warning rest (log_warn (warning f e) w) n = (w', n')"
      by simp
    from Cons.IH[OF this] False show ?thesis by auto
  qed
qed

lemma in_rglob_log:
  "q \<in> set (rglob_log fs d) \<longleftrightarrow>
     q \<in> fst ` set fs \<and> strict_prefix d q \<and> ends_with ''.log'' (name q)"
  by (auto simp: rglob_log_def)

lemma in_glob_jar:
  "q \<in> set (glob_jar fs d) \<longleftrightarrow>
     q \<in> fst ` set fs \<and> child_of d q \<and> ends_with ''.jar'' (name q)"
  by (auto simp: glob_jar_def)

lemma purge_logs_lookup:
  "lookup (files (purge_logs bot_path w)) q =
     (if is_dir (files w) (bot_path @ [''logs'']) \<and> strict_prefix (bot_path @ [''logs'']) q
         \<and> ends_with ''.log'' (name q) \<and> removable (files w) q
      then None else lookup (files w) q)"
proof (cases "is_dir (files w) (bot_path @ [''logs''])")
  case True
  then have ex: "path_exists (files w) (bot_path @ [''logs''])"
    by (simp add: is_dir_def path_exists_def)
  obtain w' n' where
    l: "unlink_loop DidNotRemoveLogFile (rglob_log (files w) (bot_path @ [''logs''])) w 0 = (w', n')"
    by (cases "unlink_loop DidNotRemoveLogFile (rglob_log (files w) (bot_path @ [''logs''])) w 0")
  from unlink_loop_lookup[OF l, of q] True ex l show ?thesis
    by (auto simp: purge_logs_def in_rglob_log dest: removable_dom)
next
  case False
  then show ?thesis by (simp add: purge_logs_def)
qed

section \<open>The bot-folder heuristic and a folder that may not be searched\<close>

lemma not_denied [simp]: "\<not> denied [] fs p"
  by (simp add: denied_def)

text \<open>
  Where every folder may be searched, \<open>is_bot_folder\<close> answers true exactly when
  the path is a directory: whether \<open>logs\<close> or \<open>plugins\<close> exist below it changes
  nothing, both branches of that test return true.
\<close>

lemma is_bot_folder_open: "is_bot_folder [] fs p = Inr (is_dir fs p)"
  by (simp add: is_bot_folder_def stat_is_dir_def stat_exists_def)

lemma is_bot_folder_closed:
  assumes "is_dir fs p" "\<not> denied closed fs p" "p \<in> set closed"
  shows "is_bot_folder closed fs p = Inl (PermissionError (p @ [''logs'']))"
proof -
  have "denied closed fs (p @ [''logs''])"
    using assms(1,3) unfolding denied_def list_ex_iff
    by (intro bexI[of _ p]) (simp_all add: strict_prefix_def)
  with assms(1,2) show ?thesis
    by (simp add: is_bot_folder_def stat_is_dir_def stat_exists_def)
qed

text \<open>
  Claim C9 says that \<open>is_bot_folder\<close> returns true for every directory, the test
  for \<open>logs\<close> and \<open>plugins\<close> being dead code. The last line of the function is
  commented \<open>fallback: treat any directory child of bots_root as bot\<close>, and the
  function does return true whatever the test finds. But the test is still
  evaluated: for a directory that the user may not search, here \<open>/bots/b1\<close>,
  \<open>p.is_dir()\<close> is true and \<open>(p / "logs").exists()\<close> raises \<open>PermissionError\<close>
  out of the function. With the same tree open to the user the answer is true.
\<close>

theorem is_bot_folder_closed_folder_raises:
  "is_dir logs_fs b1
   \<and> is_bot_folder [b1] logs_fs b1 = Inl (PermissionError (b1 @ [''logs'']))
   \<and> is_bot_folder [] logs_fs b1 = Inr True"
  by (simp add: is_bot_folder_def stat_is_dir_def stat_exists_def denied_def is_dir_def
      path_exists_def lookup_def logs_fs_def b1_def strict_prefix_def)

section \<open>The log purge touches \<open>.log\<close> files under \<open>logs\<close> only\<close>

text \<open>
  Claim C3. The log purge (block 1 of \<open>process_single_bot\<close>, step 2 of the
  procedure) changes a path only by removing it, and only when it is a regular
  file below \<open>bot_path/logs\<close>, at any depth, whose name ends in \<open>.log\<close>. So
  every path at or below \<open>bot_path/plugins\<close> and every path whose name does
  not end in \<open>.log\<close> is after the step what it was before.
\<close>

theorem purge_logs_frame:
  "(lookup (files (purge_logs bot_path w)) q \<noteq> lookup (files w) q \<longrightarrow>
      strict_prefix (bot_path @ [''logs'']) q \<and> ends_with ''.log'' (name q)
      \<and> is_file (files w) q \<and> lookup (files (purge_logs bot_path w)) q = None)
   \<and> (prefix (bot_path @ [''plugins'']) q \<longrightarrow>
        lookup (files (purge_logs bot_path w)) q = lookup (files w) q)
   \<and> (\<not> ends_with ''.log'' (name q) \<longrightarrow>
        lookup (files (purge_logs bot_path w)) q = lookup (files w) q)"
proof -
  have "\<not> strict_prefix (bot_path @ [''logs'']) q" if "prefix (bot_path @ [''plugins'']) q"
  proof
    assume "strict_prefix (bot_path @ [''logs'']) q"
    then have "prefix (bot_path @ [''logs'']) q" by (simp add: strict_prefix_def)
    with that have "prefix (bot_path @ [''logs'']) (bot_path @ [''plugins''])
        \<or> prefix (bot_path @ [''plugins'']) (bot_path @ [''logs''])"
      using prefix_same_cases by blast
    then show False by simp
  qed
  then show ?thesis
    by (auto simp: purge_logs_lookup removable_is_file)
qed

theorem purge_logs_frame_witness:
  "lookup (files (world_of logs_fs)) [''bots'', ''b1'', ''logs'', ''2024'', ''z.log'']
     = Some (File ''z'' False)
   \<and> lookup (files (purge_logs b1 (world_of logs_fs))) [''bots'', ''b1'', ''logs'', ''2024'', ''z.log'']
     = None
   \<and> strict_prefix (b1 @ [''logs'']) [''bots'', ''b1'', ''logs'', ''2024'', ''z.log'']
   \<and> prefix (b1 @ [''plugins'']) [''bots'', ''b1'', ''plugins'', ''x.log'']
   \<and> lookup (files (purge_logs b1 (world_of logs_fs))) [''bots'', ''b1'', ''plugins'', ''x.log'']
     = Some (File ''x'' False)
   \<and> \<not> ends_with ''.log'' (name [''bots'', ''b1'', ''logs'', ''keep.txt''])
   \<and> lookup (files (purge_logs b1 (world_of logs_fs))) [''bots'', ''b1'', ''logs'', ''keep.txt'']
     = Some (File ''k'' False)"
proof -
  have changed: "lookup (files (purge_logs b1 (world_of logs_fs))) [''bots'', ''b1'', ''logs'', ''2024'', ''z.log'']
      \<noteq> lookup (files (world_of logs_fs)) [''bots'', ''b1'', ''logs'', ''2024'', ''z.log'']"
    by code_simp
  have under: "prefix (b1 @ [''plugins'']) [''bots'', ''b1'', ''plugins'', ''x.log'']"
    by (simp add: b1_def)
  have other: "\<not> ends_with ''.log'' (name [''bots'', ''b1'', ''logs'', ''keep.txt''])"
    by (simp add: ends_with_def name_def)
  have before: "lookup (files (world_of logs_fs)) [''bots'', ''b1'', ''logs'', ''2024'', ''z.log'']
      = Some (File ''z'' False)"
    "lookup (files (world_of logs_fs)) [''bots'', ''b1'', ''plugins'', ''x.log''] = Some (File ''x'' False)"
    "lookup (files (world_of logs_fs)) [''bots'', ''b1'', ''logs'', ''keep.txt''] = Some (File ''k'' False)"
    by (simp_all add: world_of_def logs_fs_def lookup_def)
  from purge_logs_frame[of b1 "world_of logs_fs" "[''bots'', ''b1'', ''logs'', ''2024'', ''z.log'']"]
    purge_logs_frame[of b1 "world_of logs_fs" "[''bots'', ''b1'', ''plugins'', ''x.log'']"]
    purge_logs_frame[of b1 "world_of logs_fs" "[''bots'', ''b1'', ''logs'', ''keep.txt'']"]
    changed under other before
  show ?thesis by simp
qed

section \<open>What the procedure writes to the log\<close>

text \<open>
  Every block of \<open>process_single_bot\<close> appends lines to the log, all of them
  lines of its own, and leaves the progress bar, the list and the configuration
  alone.
\<close>

lemma log_ext_refl [simp]: "log_ext w w"
  by (simp add: log_ext_def)

lemma log_ext_trans: "log_ext w w' \<Longrightarrow> log_ext w' w'' \<Longrightarrow> log_ext w w''"
  by (auto simp: log_ext_def)

lemma log_ext_files [simp]: "log_ext (w\<lparr>files := fs\<rparr>) w' = log_ext w w'"
  "log_ext w (w'\<lparr>files := fs\<rparr>) = log_ext w w'"
  by (simp_all add: log_ext_def)

lemma log_ext_warn: "step_msg m \<Longrightarrow> log_ext w w' \<Longrightarrow> log_ext w (log_warn m w')"
  by (auto simp: log_ext_def log_warn_def)

lemma log_ext_info: "step_msg m \<Longrightarrow> log_ext w w' \<Longrightarrow> log_ext w (log_info m w')"
  by (auto simp: log_ext_def log_info_def)

lemma log_ext_warn_left: "step_msg m \<Longrightarrow> log_ext (log_warn m w) w' \<Longrightarrow> log_ext w w'"
  by (auto simp: log_ext_def log_warn_def)

lemma unlink_loop_log_ext:
  "(\<And>f e. step_msg (warning f e)) \<Longrightarrow> unlink_loop warning ps w n = (w', n') \<Longrightarrow> log_ext w w'"
proof (induction ps arbitrary: w n)
  case Nil
  then show ?case by simp
next
  case (Cons f rest)
  from Cons.prems(2) show ?case
    by (auto split: sum.splits dest!: Cons.IH[OF Cons.prems(1)] intro: log_ext_warn_left[OF Cons.prems(1)])
qed

lemma clear_loop_log_ext:
  "clear_loop ps w n = (w', n') \<Longrightarrow> log_ext w w'"
proof (induction ps arbitrary: w n)
  case Nil
  then show ?case by simp
next
  case (Cons f rest)
  have s: "step_msg (DidNotRemove f e)" for e by (simp add: step_msg_def)
  from Cons.prems show ?case
    by (auto split: sum.splits if_splits prod.splits option.splits
        dest!: Cons.IH dest: log_ext_warn_left[OF s])
qed

lemma copy_loop_log_ext:
  "copy_loop u ps w n = (w', n') \<Longrightarrow> log_ext w w'"
proof (induction ps arbitrary: w n)
  case Nil
  then show ?case by simp
next
  case (Cons f rest)
  have s: "step_msg (FailedToCopy f u e)" "step_msg (SkippedDarkBotInPlugins x)" for e x
    by (simp_all add: step_msg_def)
  from Cons.prems show ?case
    by (auto split: sum.splits if_splits dest!: Cons.IH intro: log_ext_warn_left[OF s(1)] log_ext_warn_left[OF s(2)])
qed

lemma purge_logs_log_ext: "log_ext w (purge_logs bp w)"
  by (auto simp: purge_logs_def Let_def step_msg_def split: prod.splits
      intro!: log_ext_info log_ext_warn dest: unlink_loop_log_ext[rotated])

lemma purge_old_plugins_log_ext: "log_ext w (purge_old_plugins bp w)"
  by (auto simp: purge_old_plugins_def Let_def step_msg_def split: prod.splits
      intro!: log_ext_info log_ext_warn dest: unlink_loop_log_ext[rotated])

lemma reset_updates_log_ext: "log_ext w (reset_updates bp w)"
  by (auto simp: reset_updates_def Let_def step_msg_def split: prod.splits sum.splits
      intro!: log_ext_info log_ext_warn dest: clear_loop_log_ext)

lemma copy_darkbot_jar_log_ext: "log_ext w (copy_darkbot_jar bp dj w)"
  by (auto simp: copy_darkbot_jar_def Let_def step_msg_def split: prod.splits sum.splits
      intro!: log_ext_info log_ext_warn)

lemma copy_plugin_jars_log_ext: "log_ext w (copy_plugin_jars bp ps w)"
  by (auto simp: copy_plugin_jars_def Let_def step_msg_def split: prod.splits sum.splits
      intro!: log_ext_info log_ext_warn dest: copy_loop_log_ext)

lemma process_single_bot_log_ext: "log_ext w (snd (process_single_bot bp dj ps w))"
proof -
  have "log_ext w (copy_plugin_jars bp ps
           (copy_darkbot_jar bp dj
             (reset_updates bp (purge_old_plugins bp (purge_logs bp w)))))"
    by (rule log_ext_trans[OF purge_logs_log_ext], rule log_ext_trans[OF purge_old_plugins_log_ext],
        rule log_ext_trans[OF reset_updates_log_ext], rule log_ext_trans[OF copy_darkbot_jar_log_ext],
        rule copy_plugin_jars_log_ext)
  then show ?thesis by (simp add: process_single_bot_def)
qed

lemma map_filter_log_ext:
  assumes "log_ext w w'" and "\<And>l m. step_msg m \<Longrightarrow> g (l, m) = None"
  shows "List.map_filter g (log w') = List.map_filter g (log w)"
proof -
  from assms(1) obtain xs where xs: "log w' = log w @ xs" "list_all (\<lambda>e. step_msg (snd e)) xs"
    by (auto simp: log_ext_def)
  have "List.map_filter g (ys @ xs) = List.map_filter g ys" for ys
    using xs(2) assms(2) by (induction xs arbitrary: ys) (auto simp: List.map_filter_def)
  with xs(1) show ?thesis by simp
qed

section \<open>The batch runner attempts every folder\<close>

lemma map_filter_app:
  "List.map_filter g (xs @ ys) = List.map_filter g xs @ List.map_filter g ys"
  by (simp add: List.map_filter_def)

lemma filter_log_ext:
  assumes "log_ext w w'" and "\<And>l m. step_msg m \<Longrightarrow> \<not> P (l, m)"
  shows "filter P (log w') = filter P (log w)"
proof -
  from assms(1) obtain xs where xs: "log w' = log w @ xs" "list_all (\<lambda>e. step_msg (snd e)) xs"
    by (auto simp: log_ext_def)
  have "filter P xs = []" using xs(2) assms(2)
    by (induction xs) auto
  with xs(1) show ?thesis by simp
qed

lemma step_msg_not_runner:
  "step_msg m \<Longrightarrow> \<not> is_processing (l, m)"
  "step_msg m \<Longrightarrow> \<not> is_error (l, m)"
  "step_msg m \<Longrightarrow> attempt_key (l, m) = None"
  by (auto simp: step_msg_def is_processing_def is_error_def attempt_key_def split: msg.splits)

lemma runner_entries [simp]:
  "is_processing (l, Processing i n p)" "\<not> is_processing (l, Completed i n p)"
  "\<not> is_processing (l, ErrorProcessing i n p x)" "\<not> is_processing (l, Traceback x)"
  "\<not> is_error (l, Processing i n p)" "\<not> is_error (l, Completed i n p)"
  "is_error (l, ErrorProcessing i n p x)" "\<not> is_error (l, Traceback x)"
  "attempt_key (l, Processing i n p) = Some (False, i, p)"
  "attempt_key (l, Completed i n p) = Some (True, i, p)"
  "attempt_key (l, ErrorProcessing i n p x) = Some (True, i, p)"
  "attempt_key (l, Traceback x) = None"
  by (simp_all add: is_processing_def is_error_def attempt_key_def)

lemma process_single_bot_runner_log:
  "filter is_processing (log (snd (process_single_bot bp dj ps w))) = filter is_processing (log w)"
  "filter is_error (log (snd (process_single_bot bp dj ps w))) = filter is_error (log w)"
  "List.map_filter attempt_key (log (snd (process_single_bot bp dj ps w))) = List.map_filter attempt_key (log w)"
  by (rule filter_log_ext[OF process_single_bot_log_ext] map_filter_log_ext[OF process_single_bot_log_ext],
      simp add: step_msg_not_runner)+

lemma log_ext_widgets:
  "log_ext w w' \<Longrightarrow> progress_maximum w' = progress_maximum w"
  "log_ext w w' \<Longrightarrow> progress_value w' = progress_value w"
  "log_ext w w' \<Longrightarrow> listbox w' = listbox w"
  "log_ext w w' \<Longrightarrow> dialogs w' = dialogs w"
  by (simp_all add: log_ext_def)

lemma worker_loop_maximum:
  "worker_loop dj ps t idx bps w e = (w', e') \<Longrightarrow> progress_maximum w' = progress_maximum w"
proof (induction bps arbitrary: idx w e)
  case Nil
  then show ?case by simp
next
  case (Cons bp rest)
  let ?w1 = "log_info (Processing idx t bp) w"
  have "progress_maximum (snd (process_single_bot bp dj ps ?w1)) = progress_maximum w"
    using log_ext_widgets(1)[OF process_single_bot_log_ext, of bp dj ps ?w1]
    by (simp add: log_info_def)
  with Cons.prems show ?case
    by (auto split: prod.splits option.splits dest!: Cons.IH
        simp: log_success_def log_info_def log_error_def)
qed

lemma worker_loop_log:
  "worker_loop dj ps t idx bps w e = (w', e') \<Longrightarrow>
     filter is_processing (log w') =
       filter is_processing (log w) @ map (\<lambda>(i, bp). (Info, Processing i t bp)) (enumerate idx bps)
   \<and> List.map_filter attempt_key (log w') =
       List.map_filter attempt_key (log w)
         @ concat (map (\<lambda>(i, bp). [(False, i, bp), (True, i, bp)]) (enumerate idx bps))
   \<and> length (filter is_error (log w')) + e = length (filter is_error (log w)) + e'
   \<and> progress_value w' = (if bps = [] then progress_value w else idx + length bps - 1)"
proof (induction bps arbitrary: idx w e)
  case Nil
  then show ?case by simp
next
  case (Cons bp rest)
  let ?w1 = "log_info (Processing idx t bp) w"
  obtain r w2 where p: "process_single_bot bp dj ps ?w1 = (r, w2)"
    by (cases "process_single_bot bp dj ps ?w1")
  from process_single_bot_runner_log[of bp dj ps ?w1] p
  have l2: "filter is_processing (log w2) = filter is_processing (log w) @ [(Info, Processing idx t bp)]"
    "filter is_error (log w2) = filter is_error (log w)"
    "List.map_filter attempt_key (log w2) = List.map_filter attempt_key (log w) @ [(False, idx, bp)]"
    by (simp_all add: log_info_def map_filter_app)
  show ?case
  proof (cases r)
    case None
    let ?w3 = "(log_success (Completed idx t bp) w2)\<lparr>progress_value := idx\<rparr>"
    from Cons.prems p None have "worker_loop dj ps t (idx + 1) rest ?w3 e = (w', e')" by simp
    from Cons.IH[OF this] l2 show ?thesis
      by (simp add: log_success_def map_filter_app)
  next
    case (Some x)
    let ?w3 = "(log_info (Traceback x) (log_error (ErrorProcessing idx t bp x) w2))\<lparr>progress_value := idx\<rparr>"
    from Cons.prems p Some have "worker_loop dj ps t (idx + 1) rest ?w3 (e + 1) = (w', e')" by simp
    from Cons.IH[OF this] l2 show ?thesis
      by (simp add: log_info_def log_error_def map_filter_app)
  qed
qed

subsection \<open>What the runner does is what the procedure does, folder after folder\<close>

lemma unlink_loop_files_only:
  "files w1 = files w2 \<Longrightarrow>
   files (fst (unlink_loop wa ps w1 n1)) = files (fst (unlink_loop wb ps w2 n2))"
proof (induction ps arbitrary: w1 w2 n1 n2)
  case Nil
  then show ?case by simp
next
  case (Cons f rest)
  show ?case
  proof (cases "unlink (files w2) f")
    case (Inl e)
    with Cons.prems Cons.IH[of "log_warn (wa f e) w1" "log_warn (wb f e) w2" n1 n2]
    show ?thesis by simp
  next
    case (Inr fs')
    with Cons.prems Cons.IH[of "w1\<lparr>files := fs'\<rparr>" "w2\<lparr>files := fs'\<rparr>" "n1 + 1" "n2 + 1"]
    show ?thesis by simp
  qed
qed

lemma clear_loop_files_only:
  "files w1 = files w2 \<Longrightarrow>
   files (fst (clear_loop ps w1 n1)) = files (fst (clear_loop ps w2 n2))"
proof (induction ps arbitrary: w1 w2 n1 n2)
  case Nil
  then show ?case by simp
next
  case (Cons p rest)
  note ih = Cons.IH
  show ?case
  proof (cases "is_file (files w2) p")
    case True
    show ?thesis
    proof (cases "unlink (files w2) p")
      case (Inl e)
      with True Cons.prems ih[of "log_warn (DidNotRemove p e) w1" "log_warn (DidNotRemove p e) w2" n1 n2]
      show ?thesis by simp
    next
      case (Inr fs')
      with True Cons.prems ih[of "w1\<lparr>files := fs'\<rparr>" "w2\<lparr>files := fs'\<rparr>" "n1 + 1" "n2 + 1"]
      show ?thesis by simp
    qed
  next
    case nf: False
    show ?thesis
    proof (cases "is_dir (files w2) p")
      case True
      obtain r fs' where rm: "rmtree (files w2) p = (r, fs')" by (cases "rmtree (files w2) p")
      show ?thesis
      proof (cases r)
        case None
        with rm nf True Cons.prems ih[of "w1\<lparr>files := fs'\<rparr>" "w2\<lparr>files := fs'\<rparr>" "n1 + 1" "n2 + 1"]
        show ?thesis by simp
      next
        case (Some e)
        with rm nf True Cons.prems
          ih[of "log_warn (DidNotRemove p e) (w1\<lparr>files := fs'\<rparr>)"
                "log_warn (DidNotRemove p e) (w2\<lparr>files := fs'\<rparr>)" n1 n2]
        show ?thesis by simp
      qed
    next
      case False
      with nf Cons.prems ih[of w1 w2 n1 n2] show ?thesis by simp
    qed
  qed
qed

lemma copy_loop_files_only:
  "files w1 = files w2 \<Longrightarrow>
   files (fst (copy_loop u ps w1 n1)) = files (fst (copy_loop u ps w2 n2))"
proof (induction ps arbitrary: w1 w2 n1 n2)
  case Nil
  then show ?case by simp
next
  case (Cons j rest)
  note ih = Cons.IH
  show ?case
  proof (cases "name j = ''DarkBot.jar''")
    case True
    with Cons.prems ih[of "log_warn (SkippedDarkBotInPlugins (name j)) w1"
        "log_warn (SkippedDarkBotInPlugins (name j)) w2" n1 n2]
    show ?thesis by simp
  next
    case False
    show ?thesis
    proof (cases "copy2 (files w2) j (u @ [name j])")
      case (Inl e)
      with False Cons.prems ih[of "log_warn (FailedToCopy j u e) w1" "log_warn (FailedToCopy j u e) w2" n1 n2]
      show ?thesis by simp
    next
      case (Inr fs')
      with False Cons.prems ih[of "w1\<lparr>files := fs'\<rparr>" "w2\<lparr>files := fs'\<rparr>" "n1 + 1" "n2 + 1"]
      show ?thesis by simp
    qed
  qed
qed

lemma blocks_files_only:
  assumes "files w1 = files w2"
  shows "files (purge_logs bp w1) = files (purge_logs bp w2)"
    and "files (purge_old_plugins bp w1) = files (purge_old_plugins bp w2)"
    and "files (reset_updates bp w1) = files (reset_updates bp w2)"
    and "files (copy_darkbot_jar bp dj w1) = files (copy_darkbot_jar bp dj w2)"
    and "files (copy_plugin_jars bp ps w1) = files (copy_plugin_jars bp ps w2)"
proof -
  show "files (purge_logs bp w1) = files (purge_logs bp w2)"
    using assms unlink_loop_files_only[OF assms, of DidNotRemoveLogFile
        "rglob_log (files w2) (bp @ [''logs''])" 0 DidNotRemoveLogFile 0]
    by (simp add: purge_logs_def Let_def case_prod_beta)
  show "files (purge_old_plugins bp w1) = files (purge_old_plugins bp w2)"
    using assms unlink_loop_files_only[OF assms, of DidNotRemove
        "glob_jar (files w2) (bp @ [''plugins'', ''old''])" 0 DidNotRemove 0]
    by (simp add: purge_old_plugins_def Let_def case_prod_beta)
  show "files (reset_updates bp w1) = files (reset_updates bp w2)"
    using assms clear_loop_files_only[OF assms,
        of "iterdir (files w2) (bp @ [''plugins'', ''updates''])" 0 0]
    by (simp add: reset_updates_def Let_def case_prod_beta split: sum.splits)
  show "files (copy_darkbot_jar bp dj w1) = files (copy_darkbot_jar bp dj w2)"
    using assms by (simp add: copy_darkbot_jar_def Let_def split: sum.splits)
  show "files (copy_plugin_jars bp ps w1) = files (copy_plugin_jars bp ps w2)"
    using assms copy_loop_files_only[OF assms, of "bp @ [''plugins'', ''updates'']"
        "glob_jar (files w2) ps" 0 0]
    by (simp add: copy_plugin_jars_def Let_def case_prod_beta)
qed

lemma process_single_bot_files_only:
  assumes "files w1 = files w2"
  shows "fst (process_single_bot bp dj ps w1) = fst (process_single_bot bp dj ps w2)"
    and "files (snd (process_single_bot bp dj ps w1)) = files (snd (process_single_bot bp dj ps w2))"
proof -
  show "fst (process_single_bot bp dj ps w1) = fst (process_single_bot bp dj ps w2)"
    using assms by (simp add: process_single_bot_def)
  have "files (copy_plugin_jars bp ps (copy_darkbot_jar bp dj (reset_updates bp
            (purge_old_plugins bp (purge_logs bp w1)))))
      = files (copy_plugin_jars bp ps (copy_darkbot_jar bp dj (reset_updates bp
            (purge_old_plugins bp (purge_logs bp w2)))))"
    by (intro blocks_files_only assms)
  then show "files (snd (process_single_bot bp dj ps w1)) = files (snd (process_single_bot bp dj ps w2))"
    using assms by (simp add: process_single_bot_def)
qed

lemma bot_result_of:
  "bot_result dj ps bp (files w) =
     (fst (process_single_bot bp dj ps w), files (snd (process_single_bot bp dj ps w)))"
proof -
  have "files (world_of (files w)) = files w" by (simp add: world_of_def)
  from process_single_bot_files_only[OF this, of bp dj ps] show ?thesis
    by (simp add: bot_result_def case_prod_beta)
qed

lemma conclusion_entries [simp]:
  "\<not> is_conclusion (l, Processing i n p)" "is_conclusion (l, Completed i n p)"
  "is_conclusion (l, ErrorProcessing i n p x)" "\<not> is_conclusion (l, Traceback x)"
  "\<not> is_conclusion (l, OperationStart n)" "\<not> is_conclusion (l, OperationCompleted n)"
  "\<not> is_conclusion (l, OperationCompletedWithErrors n)"
  by (simp_all add: is_conclusion_def)

lemma step_msg_not_conclusion: "step_msg m \<Longrightarrow> \<not> is_conclusion (l, m)"
  by (auto simp: step_msg_def is_conclusion_def split: msg.splits)

lemma worker_loop_runs:
  "worker_loop dj ps t idx bps w e = (w', e') \<Longrightarrow>
     files w' = snd (runs dj ps bps (files w))
   \<and> filter is_conclusion (log w') =
       filter is_conclusion (log w)
         @ map (conclusion t) (zip (enumerate idx bps) (fst (runs dj ps bps (files w))))
   \<and> e' = e + length (filter (\<lambda>r. r \<noteq> None) (fst (runs dj ps bps (files w))))"
proof (induction bps arbitrary: idx w e)
  case Nil
  then show ?case by simp
next
  case (Cons bp rest)
  let ?w1 = "log_info (Processing idx t bp) w"
  obtain r w2 where p: "process_single_bot bp dj ps ?w1 = (r, w2)"
    by (cases "process_single_bot bp dj ps ?w1")
  have br: "bot_result dj ps bp (files w) = (r, files w2)"
    using bot_result_of[of dj ps bp ?w1] p by simp
  obtain rs fs'' where rr: "runs dj ps rest (files w2) = (rs, fs'')"
    by (cases "runs dj ps rest (files w2)")
  have c2: "filter is_conclusion (log w2) = filter is_conclusion (log w)"
    using filter_log_ext[OF process_single_bot_log_ext, of is_conclusion bp dj ps ?w1] p
    by (simp add: step_msg_not_conclusion log_info_def)
  show ?case
  proof (cases r)
    case None
    let ?w3 = "(log_success (Completed idx t bp) w2)\<lparr>progress_value := idx\<rparr>"
    from Cons.prems p None have "worker_loop dj ps t (idx + 1) rest ?w3 e = (w', e')" by simp
    from Cons.IH[OF this] br rr c2 None show ?thesis
      by (simp add: log_success_def conclusion_def)
  next
    case (Some x)
    let ?w3 = "(log_info (Traceback x) (log_error (ErrorProcessing idx t bp x) w2))\<lparr>progress_value := idx\<rparr>"
    from Cons.prems p Some have "worker_loop dj ps t (idx + 1) rest ?w3 (e + 1) = (w', e')" by simp
    from Cons.IH[OF this] br rr c2 Some show ?thesis
      by (simp add: log_info_def log_error_def conclusion_def)
  qed
qed

lemma runner_entries_more [simp]:
  "\<not> is_processing (l, OperationStart n)" "\<not> is_processing (l, OperationCompleted n)"
  "\<not> is_processing (l, OperationCompletedWithErrors n)"
  "\<not> is_error (l, OperationStart n)" "\<not> is_error (l, OperationCompleted n)"
  "\<not> is_error (l, OperationCompletedWithErrors n)"
  "attempt_key (l, OperationStart n) = None" "attempt_key (l, OperationCompleted n) = None"
  "attempt_key (l, OperationCompletedWithErrors n) = None"
  by (simp_all add: is_processing_def is_error_def attempt_key_def)

text \<open>
  Claim C5. For every list of folders, \<open>_run_worker\<close> announces each folder
  once, in the order of the list, with its index (the \<open>Processing\<close> lines of
  the log are those of the list, numbered from 1); each folder is concluded, by
  a \<open>Completed\<close> or by an \<open>Error processing\<close> line, before the next one is
  announced, whether it failed or not; the progress bar ends at the number of
  folders. The filesystem it leaves is the one that \<open>process_single_bot\<close>
  leaves when it is called once for each folder of the list, in that order, each
  call on what the call before left. A folder is concluded by
  \<open>Error processing\<close>, with the exception, exactly when its call raised, and
  by \<open>Completed\<close> otherwise; the failures counted are these raises, and the
  last line of the log reports their number.
\<close>

theorem run_worker_attempts_every_folder:
  "filter is_processing (log (run_worker bot_paths w)) =
     filter is_processing (log w)
       @ map (\<lambda>(i, bp). (Info, Processing i (length bot_paths) bp)) (enumerate 1 bot_paths)
   \<and> List.map_filter attempt_key (log (run_worker bot_paths w)) =
     List.map_filter attempt_key (log w)
       @ concat (map (\<lambda>(i, bp). [(False, i, bp), (True, i, bp)]) (enumerate 1 bot_paths))
   \<and> progress_value (run_worker bot_paths w) = length bot_paths
   \<and> progress_maximum (run_worker bot_paths w) = length bot_paths
   \<and> last (log (run_worker bot_paths w)) =
       (let k = length (filter is_error (log (run_worker bot_paths w)))
                  - length (filter is_error (log w))
        in if k = 0 then (Success, OperationCompleted (length bot_paths))
           else (Warn, OperationCompletedWithErrors k))
   \<and> files (run_worker bot_paths w) =
       snd (runs (darkbot_jar_path w) (plugin_updates_folder w) bot_paths (files w))
   \<and> filter is_conclusion (log (run_worker bot_paths w)) =
       filter is_conclusion (log w)
         @ map (conclusion (length bot_paths))
             (zip (enumerate 1 bot_paths)
                (fst (runs (darkbot_jar_path w) (plugin_updates_folder w) bot_paths (files w))))
   \<and> length (filter is_error (log (run_worker bot_paths w))) - length (filter is_error (log w)) =
       length (filter (\<lambda>r. r \<noteq> None)
         (fst (runs (darkbot_jar_path w) (plugin_updates_folder w) bot_paths (files w))))"
proof -
  let ?n = "length bot_paths"
  let ?w0 = "log_info (OperationStart ?n) (w\<lparr>progress_value := 0, progress_maximum := ?n\<rparr>)"
  let ?R = "runs (darkbot_jar_path w) (plugin_updates_folder w) bot_paths (files w)"
  obtain w' e' where l: "worker_loop (darkbot_jar_path w) (plugin_updates_folder w) ?n 1 bot_paths ?w0 0 = (w', e')"
    by (cases "worker_loop (darkbot_jar_path w) (plugin_updates_folder w) ?n 1 bot_paths ?w0 0")
  have r: "run_worker bot_paths w =
      showinfo DoneDialog (if e' = 0 then log_success (OperationCompleted ?n) w'
                           else log_warn (OperationCompletedWithErrors e') w')"
    using l by (simp add: run_worker_def Let_def)
  have m: "progress_maximum w' = ?n"
    using worker_loop_maximum[OF l] by (simp add: log_info_def)
  from worker_loop_log[OF l] have
    a: "filter is_processing (log w') = filter is_processing (log w)
          @ map (\<lambda>(i, bp). (Info, Processing i ?n bp)) (enumerate 1 bot_paths)"
    and b: "List.map_filter attempt_key (log w') = List.map_filter attempt_key (log w)
          @ concat (map (\<lambda>(i, bp). [(False, i, bp), (True, i, bp)]) (enumerate 1 bot_paths))"
    and c: "length (filter is_error (log w')) = length (filter is_error (log w)) + e'"
    and d: "progress_value w' = ?n"
    by (simp_all add: log_info_def map_filter_app)
  from worker_loop_runs[OF l] have
    f: "files w' = snd ?R"
    and g: "filter is_conclusion (log w') = filter is_conclusion (log w)
          @ map (conclusion ?n) (zip (enumerate 1 bot_paths) (fst ?R))"
    and h: "e' = length (filter (\<lambda>r. r \<noteq> None) (fst ?R))"
    by (simp_all add: log_info_def)
  have 1: "filter is_processing (log (run_worker bot_paths w)) =
     filter is_processing (log w)
       @ map (\<lambda>(i, bp). (Info, Processing i ?n bp)) (enumerate 1 bot_paths)"
    unfolding r using a by (simp add: showinfo_def log_success_def log_warn_def)
  have 2: "List.map_filter attempt_key (log (run_worker bot_paths w)) =
     List.map_filter attempt_key (log w)
       @ concat (map (\<lambda>(i, bp). [(False, i, bp), (True, i, bp)]) (enumerate 1 bot_paths))"
    unfolding r using b by (simp add: showinfo_def log_success_def log_warn_def map_filter_app)
  have 3: "progress_value (run_worker bot_paths w) = ?n" "progress_maximum (run_worker bot_paths w) = ?n"
    unfolding r using d m by (simp_all add: showinfo_def log_success_def log_warn_def)
  have k: "length (filter is_error (log (run_worker bot_paths w)))
      - length (filter is_error (log w)) = e'"
    unfolding r using c by (simp add: showinfo_def log_success_def log_warn_def)
  have 4: "last (log (run_worker bot_paths w)) =
       (let k = length (filter is_error (log (run_worker bot_paths w)))
                  - length (filter is_error (log w))
        in if k = 0 then (Success, OperationCompleted ?n)
           else (Warn, OperationCompletedWithErrors k))"
    unfolding k Let_def unfolding r
    by (simp add: showinfo_def log_success_def log_warn_def)
  have 5: "files (run_worker bot_paths w) = snd ?R"
    unfolding r using f by simp
  have 6: "filter is_conclusion (log (run_worker bot_paths w)) =
       filter is_conclusion (log w) @ map (conclusion ?n) (zip (enumerate 1 bot_paths) (fst ?R))"
    unfolding r using g by (simp add: showinfo_def log_success_def log_warn_def)
  from 1 2 3 4 5 6 k h show ?thesis by blast
qed

theorem run_worker_attempts_every_folder_witness:
  "List.map_filter attempt_key
      (log (run_worker [b1, [''bots'', ''gone''], [''bots'']] (world_of logs_fs)))
     = [(False, 1, b1), (True, 1, b1), (False, 2, [''bots'', ''gone'']),
        (True, 2, [''bots'', ''gone'']), (False, 3, [''bots'']), (True, 3, [''bots''])]
   \<and> length (filter is_error
        (log (run_worker [b1, [''bots'', ''gone''], [''bots'']] (world_of logs_fs)))) = 1
   \<and> progress_value (run_worker [b1, [''bots'', ''gone''], [''bots'']] (world_of logs_fs)) = 3
   \<and> last (log (run_worker [b1, [''bots'', ''gone''], [''bots'']] (world_of logs_fs)))
       = (Warn, OperationCompletedWithErrors 1)
   \<and> fst (runs [''src'', ''DarkBot.jar''] [''src'', ''plugins'']
        [b1, [''bots'', ''gone''], [''bots'']] logs_fs)
       = [None, Some (MissingFolder [''bots'', ''gone'']), None]
   \<and> filter is_conclusion
        (log (run_worker [b1, [''bots'', ''gone''], [''bots'']] (world_of logs_fs)))
       = [(Success, Completed 1 3 b1),
          (Error, ErrorProcessing 2 3 [''bots'', ''gone''] (MissingFolder [''bots'', ''gone''])),
          (Success, Completed 3 3 [''bots''])]
   \<and> lookup (files (run_worker [b1, [''bots'', ''gone''], [''bots'']] (world_of logs_fs)))
        [''bots'', ''b1'', ''logs'', ''a.log''] = None"
proof -
  have k: "length (filter is_error
        (log (run_worker [b1, [''bots'', ''gone''], [''bots'']] (world_of logs_fs)))) = 1"
    by code_simp
  have e: "log (world_of logs_fs) = []" "files (world_of logs_fs) = logs_fs"
    "darkbot_jar_path (world_of logs_fs) = [''src'', ''DarkBot.jar'']"
    "plugin_updates_folder (world_of logs_fs) = [''src'', ''plugins'']"
    by (simp_all add: world_of_def)
  have o: "fst (runs [''src'', ''DarkBot.jar''] [''src'', ''plugins'']
        [b1, [''bots'', ''gone''], [''bots'']] logs_fs)
       = [None, Some (MissingFolder [''bots'', ''gone'']), None]"
    by code_simp
  have f: "lookup (snd (runs [''src'', ''DarkBot.jar''] [''src'', ''plugins'']
        [b1, [''bots'', ''gone''], [''bots'']] logs_fs)) [''bots'', ''b1'', ''logs'', ''a.log''] = None"
    by code_simp
  note t = run_worker_attempts_every_folder[of "[b1, [''bots'', ''gone''], [''bots'']]" "world_of logs_fs",
      unfolded e]
  have 1: "List.map_filter attempt_key
      (log (run_worker [b1, [''bots'', ''gone''], [''bots'']] (world_of logs_fs)))
     = [(False, 1, b1), (True, 1, b1), (False, 2, [''bots'', ''gone'']),
        (True, 2, [''bots'', ''gone'']), (False, 3, [''bots'']), (True, 3, [''bots''])]"
    using t by (simp add: List.map_filter_simps)
  have 2: "progress_value (run_worker [b1, [''bots'', ''gone''], [''bots'']] (world_of logs_fs)) = 3"
    using t by simp
  have 3: "last (log (run_worker [b1, [''bots'', ''gone''], [''bots'']] (world_of logs_fs)))
       = (Warn, OperationCompletedWithErrors 1)"
    using t k by simp
  have 4: "filter is_conclusion
        (log (run_worker [b1, [''bots'', ''gone''], [''bots'']] (world_of logs_fs)))
       = [(Success, Completed 1 3 b1),
          (Error, ErrorProcessing 2 3 [''bots'', ''gone''] (MissingFolder [''bots'', ''gone''])),
          (Success, Completed 3 3 [''bots''])]"
    using t o by (simp add: conclusion_def)
  have 5: "lookup (files (run_worker [b1, [''bots'', ''gone''], [''bots'']] (world_of logs_fs)))
        [''bots'', ''b1'', ''logs'', ''a.log''] = None"
    using t f by simp
  from 1 k 2 3 o 4 5 show ?thesis by blast
qed

section \<open>The folder that is not there\<close>

text \<open>
  Claim C4. \<open>process_single_bot\<close> and \<open>clear_single_bot\<close> raise the
  missing-folder error exactly when the path does not exist or is not a
  directory; the state in which they raise it is the state they were called in,
  so no step has run and nothing is changed or logged; and the batch loop goes
  on with the folders that follow.
\<close>

theorem missing_folder:
  "fst (process_single_bot bot_path darkjar_src plugin_src_folder w) =
     (if path_exists (files w) bot_path \<and> is_dir (files w) bot_path then None
      else Some (MissingFolder bot_path))
   \<and> fst (clear_single_bot bot_path w) =
     (if path_exists (files w) bot_path \<and> is_dir (files w) bot_path then None
      else Some (MissingFolder bot_path))
   \<and> (fst (process_single_bot bot_path darkjar_src plugin_src_folder w) \<noteq> None \<longrightarrow>
        snd (process_single_bot bot_path darkjar_src plugin_src_folder w) = w)
   \<and> (fst (clear_single_bot bot_path w) \<noteq> None \<longrightarrow> snd (clear_single_bot bot_path w) = w)
   \<and> (\<not> (path_exists (files w) bot_path \<and> is_dir (files w) bot_path) \<longrightarrow>
        worker_loop darkjar_src plugin_src_folder n idx (bot_path # rest) w errors =
        worker_loop darkjar_src plugin_src_folder n (idx + 1) rest
          ((log_info (Traceback (MissingFolder bot_path))
             (log_error (ErrorProcessing idx n bot_path (MissingFolder bot_path))
               (log_info (Processing idx n bot_path) w)))\<lparr>progress_value := idx\<rparr>)
          (errors + 1))"
  by (auto simp: process_single_bot_def clear_single_bot_def Let_def)

theorem missing_folder_witness:
  "\<not> path_exists (files (world_of logs_fs)) [''bots'', ''gone'']
   \<and> process_single_bot [''bots'', ''gone''] [''src'', ''DarkBot.jar''] [''src'', ''plugins'']
        (world_of logs_fs) = (Some (MissingFolder [''bots'', ''gone'']), world_of logs_fs)
   \<and> path_exists (files (world_of logs_fs)) [''bots'', ''b1'', ''logs'', ''a.log'']
   \<and> \<not> is_dir (files (world_of logs_fs)) [''bots'', ''b1'', ''logs'', ''a.log'']
   \<and> clear_single_bot [''bots'', ''b1'', ''logs'', ''a.log''] (world_of logs_fs)
        = (Some (MissingFolder [''bots'', ''b1'', ''logs'', ''a.log'']), world_of logs_fs)
   \<and> fst (process_single_bot b1 [''src'', ''DarkBot.jar''] [''src'', ''plugins''] (world_of logs_fs))
        = None"
proof -
  have a: "\<not> path_exists (files (world_of logs_fs)) [''bots'', ''gone'']"
    and b: "path_exists (files (world_of logs_fs)) [''bots'', ''b1'', ''logs'', ''a.log'']"
      "\<not> is_dir (files (world_of logs_fs)) [''bots'', ''b1'', ''logs'', ''a.log'']"
    and c: "path_exists (files (world_of logs_fs)) b1" "is_dir (files (world_of logs_fs)) b1"
    by (simp_all add: world_of_def logs_fs_def b1_def path_exists_def is_dir_def lookup_def)
  from missing_folder[of "[''bots'', ''gone'']" "[''src'', ''DarkBot.jar'']" "[''src'', ''plugins'']"
      "world_of logs_fs"]
    missing_folder[of "[''bots'', ''b1'', ''logs'', ''a.log'']" "[''src'', ''DarkBot.jar'']"
      "[''src'', ''plugins'']" "world_of logs_fs"]
    missing_folder[of b1 "[''src'', ''DarkBot.jar'']" "[''src'', ''plugins'']" "world_of logs_fs"]
    a b c
  show ?thesis by (simp add: prod_eq_iff)
qed

section \<open>The log-only procedure does the two purges\<close>

lemma purge_old_plugins_lookup:
  "lookup (files (purge_old_plugins bot_path w)) q =
     (if is_dir (files w) (bot_path @ [''plugins'', ''old''])
         \<and> child_of (bot_path @ [''plugins'', ''old'']) q
         \<and> ends_with ''.jar'' (name q) \<and> removable (files w) q
      then None else lookup (files w) q)"
proof (cases "is_dir (files w) (bot_path @ [''plugins'', ''old''])")
  case True
  then have ex: "path_exists (files w) (bot_path @ [''plugins'', ''old''])"
    by (simp add: is_dir_def path_exists_def)
  obtain w' n' where
    l: "unlink_loop DidNotRemove (glob_jar (files w) (bot_path @ [''plugins'', ''old''])) w 0 = (w', n')"
    by (cases "unlink_loop DidNotRemove (glob_jar (files w) (bot_path @ [''plugins'', ''old''])) w 0")
  from unlink_loop_lookup[OF l, of q] True ex l show ?thesis
    by (auto simp: purge_old_plugins_def in_glob_jar dest: removable_dom)
next
  case False
  then show ?thesis by (simp add: purge_old_plugins_def)
qed

lemma unlink_loop_warning_irrelevant:
  "files w1 = files w2 \<Longrightarrow> map fst (log w1) = map fst (log w2) \<Longrightarrow>
   files (fst (unlink_loop wa ps w1 n)) = files (fst (unlink_loop wb ps w2 n))
   \<and> map fst (log (fst (unlink_loop wa ps w1 n))) = map fst (log (fst (unlink_loop wb ps w2 n)))
   \<and> snd (unlink_loop wa ps w1 n) = snd (unlink_loop wb ps w2 n)"
proof (induction ps arbitrary: w1 w2 n)
  case Nil
  then show ?case by simp
next
  case (Cons f rest)
  show ?case
  proof (cases "unlink (files w2) f")
    case (Inl e)
    with Cons.prems Cons.IH[of "log_warn (wa f e) w1" "log_warn (wb f e) w2" n]
    show ?thesis by (simp add: log_warn_def)
  next
    case (Inr fs')
    with Cons.prems Cons.IH[of "w1\<lparr>files := fs'\<rparr>" "w2\<lparr>files := fs'\<rparr>" "n + 1"]
    show ?thesis by simp
  qed
qed

lemma not_under_logs:
  "prefix (bot_path @ [''plugins'', ''updates'']) q \<Longrightarrow> \<not> strict_prefix (bot_path @ [''logs'']) q"
  by (auto elim!: prefixE simp: strict_prefix_def)

lemma not_in_old:
  "prefix (bot_path @ [''plugins'', ''updates'']) q \<Longrightarrow> \<not> child_of (bot_path @ [''plugins'', ''old'']) q"
proof
  assume p: "prefix (bot_path @ [''plugins'', ''updates'']) q"
    and c: "child_of (bot_path @ [''plugins'', ''old'']) q"
  from p obtain r where q: "q = bot_path @ [''plugins'', ''updates''] @ r" by (auto elim: prefixE)
  from c have "butlast q = bot_path @ [''plugins'', ''old'']" by (simp add: child_of_def)
  with q show False by (cases r rule: rev_cases) (auto simp: butlast_append)
qed

text \<open>
  Claim C7. \<open>clear_single_bot\<close> raises when \<open>process_single_bot\<close> does,
  leaving the state as it was; otherwise it leaves the filesystem that the
  first two blocks of \<open>process_single_bot\<close> (the log purge and the purge of
  \<open>plugins/old\<close>) leave, with log lines of the same tags in the same order,
  so with a warning for each file that could not be removed. Nothing at or
  below \<open>plugins/updates\<close> changes, nor does \<open>DarkBot.jar\<close>.
\<close>

theorem clear_single_bot_is_purge_part:
  "fst (clear_single_bot bot_path w) = fst (process_single_bot bot_path darkjar_src plugin_src_folder w)
   \<and> (fst (clear_single_bot bot_path w) = None \<longrightarrow>
        files (snd (clear_single_bot bot_path w))
          = files (purge_old_plugins bot_path (purge_logs bot_path w))
        \<and> map fst (log (snd (clear_single_bot bot_path w)))
          = map fst (log (purge_old_plugins bot_path (purge_logs bot_path w))))
   \<and> (fst (clear_single_bot bot_path w) \<noteq> None \<longrightarrow> snd (clear_single_bot bot_path w) = w)
   \<and> (prefix (bot_path @ [''plugins'', ''updates'']) q \<longrightarrow>
        lookup (files (snd (clear_single_bot bot_path w))) q = lookup (files w) q)
   \<and> lookup (files (snd (clear_single_bot bot_path w))) (bot_path @ [''DarkBot.jar''])
        = lookup (files w) (bot_path @ [''DarkBot.jar''])"
proof (cases "path_exists (files w) bot_path \<and> is_dir (files w) bot_path")
  case False
  then show ?thesis by (auto simp: clear_single_bot_def process_single_bot_def)
next
  case True
  let ?logs = "bot_path @ [''logs'']" and ?old = "bot_path @ [''plugins'', ''old'']"
  define w1 where "w1 = (if path_exists (files w) ?logs \<and> is_dir (files w) ?logs then
                     (case unlink_loop DidNotDeleteLogFile (rglob_log (files w) ?logs) w 0 of
                        (w', removed) \<Rightarrow> log_info (RemovedLogFiles removed ?logs) w')
                   else log_warn (MissingLogsFolder bot_path) w)"
  define w2 where "w2 = (if path_exists (files w1) ?old \<and> is_dir (files w1) ?old then
                     (case unlink_loop DidNotDelete (glob_jar (files w1) ?old) w1 0 of
                        (w', removed) \<Rightarrow> log_info (RemovedJarFiles removed ?old) w')
                   else log_warn (MissingPluginsOldFolder bot_path) w1)"
  have c: "clear_single_bot bot_path w = (None, w2)"
    using True by (simp add: clear_single_bot_def Let_def w1_def w2_def)
  have e1: "files w1 = files (purge_logs bot_path w)
      \<and> map fst (log w1) = map fst (log (purge_logs bot_path w))"
    using unlink_loop_warning_irrelevant[of w w DidNotDeleteLogFile "rglob_log (files w) ?logs" 0
        DidNotRemoveLogFile]
    by (auto simp: w1_def purge_logs_def Let_def log_info_def log_warn_def split: prod.splits)
  have e2: "files w2 = files (purge_old_plugins bot_path (purge_logs bot_path w))
      \<and> map fst (log w2) = map fst (log (purge_old_plugins bot_path (purge_logs bot_path w)))"
    using e1 unlink_loop_warning_irrelevant[of w1 "purge_logs bot_path w" DidNotDelete
        "glob_jar (files w1) ?old" 0 DidNotRemove]
    by (auto simp: w2_def purge_old_plugins_def Let_def log_info_def log_warn_def split: prod.splits)
  have f: "lookup (files w2) q = lookup (files w) q" if "prefix (bot_path @ [''plugins'', ''updates'']) q"
    using e2 that by (simp add: purge_old_plugins_lookup purge_logs_lookup not_under_logs not_in_old)
  have g: "lookup (files w2) (bot_path @ [''DarkBot.jar'']) = lookup (files w) (bot_path @ [''DarkBot.jar''])"
    using e2 by (simp add: purge_old_plugins_lookup purge_logs_lookup child_of_def strict_prefix_def)
  from True c e2 f g show ?thesis
    by (simp add: process_single_bot_def)
qed

theorem clear_single_bot_is_purge_part_witness:
  "fst (clear_single_bot b1 (world_of bot_fs)) = None
   \<and> lookup (files (snd (clear_single_bot b1 (world_of bot_fs)))) [''bots'', ''b1'', ''logs'', ''a.log'']
       = None
   \<and> lookup (files (snd (clear_single_bot b1 (world_of bot_fs))))
        [''bots'', ''b1'', ''plugins'', ''old'', ''p.jar''] = None
   \<and> files (snd (clear_single_bot b1 (world_of bot_fs)))
       = files (purge_old_plugins b1 (purge_logs b1 (world_of bot_fs)))
   \<and> lookup (files (snd (clear_single_bot b1 (world_of bot_fs))))
        [''bots'', ''b1'', ''plugins'', ''updates'', ''stale.jar''] = Some (File ''s'' False)
   \<and> lookup (files (snd (clear_single_bot b1 (world_of bot_fs)))) [''bots'', ''b1'', ''DarkBot.jar'']
       = Some (File ''v1'' False)
   \<and> clear_single_bot [''bots'', ''b9''] (world_of bot_fs)
       = (Some (MissingFolder [''bots'', ''b9'']), world_of bot_fs)"
proof -
  have ok: "fst (clear_single_bot b1 (world_of bot_fs)) = None"
    and gone: "fst (clear_single_bot [''bots'', ''b9''] (world_of bot_fs)) \<noteq> None"
      "fst (clear_single_bot [''bots'', ''b9''] (world_of bot_fs)) = Some (MissingFolder [''bots'', ''b9''])"
    and removed: "lookup (files (snd (clear_single_bot b1 (world_of bot_fs))))
        [''bots'', ''b1'', ''logs'', ''a.log''] = None"
      "lookup (files (snd (clear_single_bot b1 (world_of bot_fs))))
        [''bots'', ''b1'', ''plugins'', ''old'', ''p.jar''] = None"
    by code_simp+
  have under: "prefix (b1 @ [''plugins'', ''updates''])
      [''bots'', ''b1'', ''plugins'', ''updates'', ''stale.jar'']"
    and jar: "b1 @ [''DarkBot.jar''] = [''bots'', ''b1'', ''DarkBot.jar'']"
    by (simp_all add: b1_def)
  have before: "lookup (files (world_of bot_fs)) [''bots'', ''b1'', ''plugins'', ''updates'', ''stale.jar'']
      = Some (File ''s'' False)"
    "lookup (files (world_of bot_fs)) [''bots'', ''b1'', ''DarkBot.jar''] = Some (File ''v1'' False)"
    by (simp_all add: world_of_def bot_fs_def lookup_def)
  note t1 = clear_single_bot_is_purge_part[of b1 "world_of bot_fs" "[''src'', ''DarkBot.jar'']"
      "[''src'', ''plugins'']" "[''bots'', ''b1'', ''plugins'', ''updates'', ''stale.jar'']"]
  note t2 = clear_single_bot_is_purge_part[of "[''bots'', ''b9'']" "world_of bot_fs"
      "[''src'', ''DarkBot.jar'']" "[''src'', ''plugins'']" "[]"]
  have eq: "files (snd (clear_single_bot b1 (world_of bot_fs)))
       = files (purge_old_plugins b1 (purge_logs b1 (world_of bot_fs)))"
    using t1 ok by blast
  have kept: "lookup (files (snd (clear_single_bot b1 (world_of bot_fs))))
        [''bots'', ''b1'', ''plugins'', ''updates'', ''stale.jar''] = Some (File ''s'' False)"
    "lookup (files (snd (clear_single_bot b1 (world_of bot_fs)))) [''bots'', ''b1'', ''DarkBot.jar'']
       = Some (File ''v1'' False)"
    using t1 under jar before by simp_all
  have raised: "clear_single_bot [''bots'', ''b9''] (world_of bot_fs)
       = (Some (MissingFolder [''bots'', ''b9'']), world_of bot_fs)"
    using t2 gone by (simp add: prod_eq_iff)
  from ok removed eq kept raised show ?thesis by blast
qed

section \<open>Each block as a function on the map from paths to entries\<close>

lemma removable_unlocked: "removable fs p = unlocked (lookup fs) p"
  by (auto simp: removable_def unlocked_def split: option.splits entry.splits)

lemma is_file_regular: "is_file fs p = regular (lookup fs) p"
  by (auto simp: is_file_def regular_def split: option.splits entry.splits)

lemma in_keys_lookup: "q \<in> fst ` set fs \<longleftrightarrow> lookup fs q \<noteq> None"
  by (simp add: lookup_def map_of_eq_None_iff)


lemma siblings_not_prefix:
  assumes "child_of d c" "child_of d c'" "prefix c r" "prefix c' r"
  shows "c = c'"
proof -
  from assms(1,2) have "length (butlast c) = length (butlast c')" "c \<noteq> []" "c' \<noteq> []"
    by (simp_all add: child_of_def)
  then have l: "length c = length c'"
    by (cases c rule: rev_cases; cases c' rule: rev_cases) simp_all
  from assms(3) obtain x where x: "r = c @ x" by (auto elim: prefixE)
  from assms(4) obtain y where y: "r = c' @ y" by (auto elim: prefixE)
  from x y l show ?thesis by simp
qed

lemma wf_fs_map: "wf_fs fs \<Longrightarrow> wf_map (lookup fs)"
  unfolding wf_fs_def wf_map_def list_all_iff
  by (auto simp: lookup_def dest!: map_of_SomeD)

lemma wf_map_below:
  assumes "wf_map m" "m d \<noteq> Some Dir" "strict_prefix d q"
  shows "m q = None"
proof -
  from assms(3) obtain r where q: "q = d @ r" "r \<noteq> []" by (auto elim: strict_prefixE')
  from q(2) have "m (d @ r) = None"
  proof (induction r rule: rev_nonempty_induct)
    case (single x)
    show ?case
    proof (rule ccontr)
      assume "m (d @ [x]) \<noteq> None"
      with assms(1) have "m (butlast (d @ [x])) = Some Dir"
        unfolding wf_map_def by blast
      with assms(2) show False by simp
    qed
  next
    case (snoc x xs)
    show ?case
    proof (rule ccontr)
      assume "m (d @ xs @ [x]) \<noteq> None"
      with assms(1) have "m (butlast (d @ xs @ [x])) = Some Dir"
        unfolding wf_map_def by blast
      with snoc.IH show False by (simp add: butlast_append)
    qed
  qed
  with q show ?thesis by simp
qed

lemma child_snoc: "child_of d c \<Longrightarrow> c = d @ [last c]"
  by (auto simp: child_of_def)

lemma child_strict: "child_of d c \<Longrightarrow> strict_prefix d c"
  by (metis child_snoc strict_prefixI')

lemma in_iterdir: "c \<in> set (iterdir fs d) \<longleftrightarrow> lookup fs c \<noteq> None \<and> child_of d c"
  by (auto simp: iterdir_def in_keys_lookup)

subsection \<open>What \<open>rmtree\<close> removes\<close>

lemma rm_each_append:
  "rm_each fs (xs @ ys) =
     (case rm_each fs xs of (None, fs1) \<Rightarrow> rm_each fs1 ys | (Some e, fs1) \<Rightarrow> (Some e, fs1))"
  by (induction xs arbitrary: fs) (auto split: sum.splits)

lemma lookup_sub:
  assumes "filter (\<lambda>e. prefix d (fst e)) cur = filter (\<lambda>e. prefix d (fst e)) fs" "prefix d q"
  shows "lookup cur q = lookup fs q"
proof -
  have "map_of (filter (\<lambda>e. prefix d (fst e)) cur) q = map_of (filter (\<lambda>e. prefix d (fst e)) fs) q"
    using assms(1) by simp
  with assms(2) show ?thesis by (simp add: map_of_filter_key lookup_def)
qed

lemma sub_sub:
  fixes cur fs :: fs
  assumes "filter (\<lambda>e. prefix d (fst e)) cur = filter (\<lambda>e. prefix d (fst e)) fs" "prefix d c"
  shows "filter (\<lambda>e. prefix c (fst e)) cur = filter (\<lambda>e. prefix c (fst e)) fs"
proof -
  have "filter (\<lambda>e. prefix c (fst e)) xs
      = filter (\<lambda>e. prefix c (fst e)) (filter (\<lambda>e. prefix d (fst e)) xs)" for xs :: fs
    using assms(2) by (auto intro!: filter_cong dest: prefix_order.trans)
  with assms(1) show ?thesis by metis
qed

lemma iterdir_sub:
  assumes "filter (\<lambda>e. prefix d (fst e)) cur = filter (\<lambda>e. prefix d (fst e)) fs" "prefix d c"
  shows "iterdir cur c = iterdir fs c"
proof -
  have "iterdir xs c = filter (child_of c) (map fst (filter (\<lambda>e. prefix d (fst e)) xs))" for xs :: fs
  proof -
    have "child_of c q \<Longrightarrow> prefix d q" for q
      using assms(2) child_strict[of c q] by (auto dest: prefix_order.trans)
    then have "filter (\<lambda>x. child_of c (fst x)) xs
        = filter (\<lambda>x. prefix d (fst x) \<and> child_of c (fst x)) xs"
      by (intro filter_cong) auto
    then show ?thesis
      unfolding iterdir_def filter_map filter_filter comp_def by simp
  qed
  with assms(1) show ?thesis by metis
qed

lemma child_above:
  assumes "wf_map m" "m q \<noteq> None" "strict_prefix d q"
  shows "\<exists>c. child_of d c \<and> prefix c q \<and> m c \<noteq> None"
  using assms(2,3)
proof (induction q rule: rev_induct)
  case Nil
  then show ?case by simp
next
  case (snoc x q)
  show ?case
  proof (cases "q = d")
    case True
    with snoc.prems show ?thesis
      by (intro exI[of _ "q @ [x]"]) (simp add: child_of_def)
  next
    case False
    with snoc.prems(2) have sp: "strict_prefix d q"
      by (auto simp: strict_prefix_def)
    from assms(1) snoc.prems(1) have "m q = Some Dir"
      unfolding wf_map_def by (metis butlast_snoc snoc_eq_iff_butlast)
    with snoc.IH sp obtain c where "child_of d c" "prefix c q" "m c \<noteq> None" by auto
    then show ?thesis by (intro exI[of _ c]) auto
  qed
qed

lemma rm_order_removes:
  "distinct (map fst fs) \<Longrightarrow> wf_map (lookup fs) \<Longrightarrow>
   lookup fs d = Some Dir \<Longrightarrow> (\<forall>r. prefix d r \<longrightarrow> \<not> locked_at (lookup fs) r) \<Longrightarrow>
      filter (\<lambda>e. prefix d (fst e)) cur = filter (\<lambda>e. prefix d (fst e)) fs \<Longrightarrow>
      rm_each cur (rm_order fs d) = (None, filter (\<lambda>e. \<not> prefix d (fst e)) cur)"
proof (induction fs d arbitrary: cur rule: rm_order.induct)
  case (1 fs d)
  note dist = "1.prems"(1) and wf = "1.prems"(2)
    and dir = "1.prems"(3) and free = "1.prems"(4) and sub = "1.prems"(5)
  define f where "f = (\<lambda>c. if is_dir fs c then rm_order fs c else [c])"
  have inner: "rm_each cu (concat (map f rest) @ [d]) = (None, filter (\<lambda>e. \<not> prefix d (fst e)) cu)"
    if "set rest \<subseteq> set (iterdir fs d)" "distinct rest"
      "\<forall>c\<in>set rest. filter (\<lambda>e. prefix c (fst e)) cu = filter (\<lambda>e. prefix c (fst e)) fs"
      "lookup cu d = Some Dir" "iterdir cu d = rest"
      "\<forall>e\<in>set cu. prefix d (fst e) \<longrightarrow> fst e = d \<or> (\<exists>c\<in>set rest. prefix c (fst e))"
    for rest cu
    using that
  proof (induction rest arbitrary: cu)
    case Nil
    have "filter (\<lambda>e. fst e \<noteq> d) cu = filter (\<lambda>e. \<not> prefix d (fst e)) cu"
      using Nil.prems(6) by (auto intro!: filter_cong)
    with Nil.prems(4,5) show ?case by (simp add: is_dir_def rmdir_def)
  next
    case (Cons c r)
    from Cons.prems(1) have cd: "child_of d c" and cex: "lookup fs c \<noteq> None"
      by (auto simp: in_iterdir)
    have subc: "filter (\<lambda>e. prefix c (fst e)) cu = filter (\<lambda>e. prefix c (fst e)) fs"
      using Cons.prems(3) by simp
    define cu' where "cu' = filter (\<lambda>e. \<not> prefix c (fst e)) cu"
    have pd: "prefix d c" using cd child_strict[of d c] by (simp add: strict_prefix_def)
    have freec: "\<forall>r. prefix c r \<longrightarrow> \<not> locked_at (lookup fs) r"
      using free pd by (auto dest: prefix_order.trans)
    have first: "rm_each cu (f c) = (None, cu')"
    proof (cases "is_dir fs c")
      case True
      then show ?thesis
        using "1.IH"[of c cu] Cons.prems(1) freec subc dist wf
        by (simp add: f_def cu'_def is_dir_def)
    next
      case False
      with cex obtain cc l where fl: "lookup fs c = Some (File cc l)"
        by (cases "lookup fs c") (auto simp: is_dir_def elim: entry.exhaust)
      with freec have "\<not> l" by (auto simp: locked_at_def)
      have lc: "lookup cu c = lookup fs c" by (rule lookup_sub[OF subc]) simp
      have none: "fst e = c" if "e \<in> set cu" "prefix c (fst e)" for e
      proof (rule ccontr)
        assume "fst e \<noteq> c"
        with that(2) have sp: "strict_prefix c (fst e)" by (simp add: strict_prefix_def)
        have "lookup fs (fst e) = None"
          by (rule wf_map_below[OF wf _ sp]) (simp add: fl)
        moreover have "e \<in> set (filter (\<lambda>e. prefix c (fst e)) cu)" using that by simp
        then have "e \<in> set (filter (\<lambda>e. prefix c (fst e)) fs)" unfolding subc .
        ultimately show False using in_keys_lookup[of "fst e" fs] by auto
      qed
      have "filter (\<lambda>e. fst e \<noteq> c) cu = cu'"
        unfolding cu'_def using none by (auto intro!: filter_cong)
      with False fl lc \<open>\<not> l\<close> show ?thesis
        by (simp add: f_def is_dir_def unlink_def)
    qed
    have sib: "\<not> prefix c q" if "c' \<in> set r" "prefix c' q" for c' q
    proof
      assume "prefix c q"
      moreover from that(1) Cons.prems(1) have "child_of d c'" by (auto simp: in_iterdir)
      ultimately have "c = c'" using siblings_not_prefix[OF cd _ _ that(2)] by simp
      with that(1) Cons.prems(2) show False by simp
    qed
    have i1: "\<forall>c'\<in>set r. filter (\<lambda>e. prefix c' (fst e)) cu' = filter (\<lambda>e. prefix c' (fst e)) fs"
    proof
      fix c' assume c': "c' \<in> set r"
      have "filter (\<lambda>e. prefix c' (fst e)) cu' = filter (\<lambda>e. prefix c' (fst e)) cu"
        unfolding cu'_def filter_filter using sib[OF c'] by (auto intro!: filter_cong)
      with Cons.prems(3) c' show
        "filter (\<lambda>e. prefix c' (fst e)) cu' = filter (\<lambda>e. prefix c' (fst e)) fs" by simp
    qed
    have "\<not> prefix c d" using child_strict[OF cd] by (auto simp: strict_prefix_def)
    then have i2: "lookup cu' d = Some Dir"
      using Cons.prems(4) by (simp add: cu'_def lookup_def map_of_filter_not_prefix)
    have "iterdir cu' d = filter (\<lambda>q. \<not> prefix c q) (iterdir cu d)"
      by (simp add: iterdir_def cu'_def filter_map comp_def conj_commute)
    also have "\<dots> = filter (\<lambda>q. \<not> prefix c q) (c # r)" using Cons.prems(5) by simp
    also have "\<dots> = r" using sib by (auto intro!: filter_True)
    finally have i3: "iterdir cu' d = r" .
    have i4: "\<forall>e\<in>set cu'. prefix d (fst e) \<longrightarrow> fst e = d \<or> (\<exists>c\<in>set r. prefix c (fst e))"
      using Cons.prems(6) by (auto simp: cu'_def)
    have rest: "rm_each cu' (concat (map f r) @ [d]) = (None, filter (\<lambda>e. \<not> prefix d (fst e)) cu')"
      using Cons.IH[OF _ _ i1 i2 i3 i4] Cons.prems(1,2) by simp
    have "filter (\<lambda>e. \<not> prefix d (fst e)) cu' = filter (\<lambda>e. \<not> prefix d (fst e)) cu"
      unfolding cu'_def filter_filter using pd by (auto intro!: filter_cong dest: prefix_order.trans)
    with first rest show ?case
      by (simp add: rm_each_append)
  qed
  have i4: "\<forall>e\<in>set cur. prefix d (fst e) \<longrightarrow> fst e = d \<or> (\<exists>c\<in>set (iterdir fs d). prefix c (fst e))"
  proof (intro ballI impI)
    fix e assume e: "e \<in> set cur" "prefix d (fst e)"
    show "fst e = d \<or> (\<exists>c\<in>set (iterdir fs d). prefix c (fst e))"
    proof (cases "fst e = d")
      case False
      with e(2) have sp: "strict_prefix d (fst e)" by (simp add: strict_prefix_def)
      have "e \<in> set (filter (\<lambda>e. prefix d (fst e)) cur)" using e by simp
      then have "e \<in> set (filter (\<lambda>e. prefix d (fst e)) fs)" unfolding sub .
      then have "lookup fs (fst e) \<noteq> None" using in_keys_lookup[of "fst e" fs] by auto
      from child_above[OF wf this sp] show ?thesis by (auto simp: in_iterdir)
    qed simp
  qed
  have "distinct (iterdir fs d)" using dist by (simp add: iterdir_def)
  moreover have "\<forall>c\<in>set (iterdir fs d). filter (\<lambda>e. prefix c (fst e)) cur = filter (\<lambda>e. prefix c (fst e)) fs"
    using sub_sub[OF sub] child_strict by (auto simp: in_iterdir strict_prefix_def)
  moreover have "lookup cur d = Some Dir" using lookup_sub[OF sub, of d] dir by simp
  moreover have "iterdir cur d = iterdir fs d" by (rule iterdir_sub[OF sub]) simp
  ultimately have "rm_each cur (concat (map f (iterdir fs d)) @ [d])
      = (None, filter (\<lambda>e. \<not> prefix d (fst e)) cur)"
    using inner[of "iterdir fs d" cur] i4 by simp
  then show ?case by (subst rm_order.simps) (simp add: f_def)
qed

lemma rmtree_removes:
  assumes "distinct (map fst fs)" "wf_map (lookup fs)" "lookup fs d = Some Dir"
    "\<forall>r. prefix d r \<longrightarrow> \<not> locked_at (lookup fs) r"
  shows "rmtree fs d = (None, filter (\<lambda>e. \<not> prefix d (fst e)) fs)"
  using rm_order_removes[OF assms, of fs] assms(3) by (simp add: rmtree_def)

lemma clearable_after_clearing:
  assumes sib: "child_of d c" "child_of d c'" "c' \<noteq> c"
    and m': "\<And>q. m' q = (if cleared m c q then None else m q)"
  shows "cleared m' c' q = cleared m c' q"
proof -
  have same: "m' r = m r" if "prefix c' r" for r
  proof -
    have "\<not> prefix c r" using siblings_not_prefix[OF sib(1,2) _ that] sib(3) by auto
    then have "\<not> cleared m c r" by (auto simp: cleared_def)
    then show ?thesis by (simp add: m')
  qed
  have "m' c' = m c'" by (simp add: same)
  moreover have "(\<forall>r. prefix c' r \<longrightarrow> \<not> locked_at m' r) = (\<forall>r. prefix c' r \<longrightarrow> \<not> locked_at m r)"
    by (auto simp: locked_at_def same)
  ultimately show ?thesis
    by (simp add: cleared_def clearable_def unlocked_def)
qed

lemma wf_map_cleared:
  assumes "wf_map m"
  shows "wf_map (\<lambda>q. if cleared m c q then None else m q)"
  unfolding wf_map_def
proof (intro allI impI)
  fix q assume q: "q \<noteq> [] \<and> (if cleared m c q then None else m q) \<noteq> None"
  then have nc: "\<not> cleared m c q" and mq: "m q \<noteq> None" by (auto split: if_splits)
  with assms q have b: "m (butlast q) = Some Dir" unfolding wf_map_def by blast
  from q have pq: "prefix (butlast q) q" by (metis append_butlast_last_id prefixI)
  have "\<not> cleared m c (butlast q)"
  proof
    assume c: "cleared m c (butlast q)"
    then have "clearable m c" "prefix c (butlast q)" by (auto simp: cleared_def)
    moreover have "m c = Some Dir" using c b by (auto simp: cleared_def)
    ultimately have "cleared m c q" using pq by (auto simp: cleared_def dest: prefix_order.trans)
    with nc show False ..
  qed
  with b show "(if cleared m c (butlast q) then None else m (butlast q)) = Some Dir" by simp
qed

lemma clear_loop_lookup:
  "clear_loop cs w n = (w', n') \<Longrightarrow> (\<forall>c\<in>set cs. child_of d c) \<Longrightarrow>
   distinct (map fst (files w)) \<Longrightarrow> wf_map (lookup (files w)) \<Longrightarrow>
   (\<forall>c\<in>set cs. \<forall>r. lookup (files w) c = Some Dir \<and> prefix c r
       \<longrightarrow> \<not> locked_at (lookup (files w)) r) \<Longrightarrow>
   lookup (files w') q =
     (if \<exists>c\<in>set cs. cleared (lookup (files w)) c q then None else lookup (files w) q)"
proof (induction cs arbitrary: w n)
  case Nil
  then show ?case by simp
next
  case (Cons c rest)
  let ?m = "lookup (files w)"
  note dist = Cons.prems(3) and wf = Cons.prems(4)
  have free: "\<not> locked_at ?m r" if "c' \<in> set (c # rest)" "?m c' = Some Dir" "prefix c' r" for c' r
    using Cons.prems(5) that by blast
  obtain w1 n1 where step: "clear_loop rest w1 n1 = (w', n')"
    and w1: "\<And>q. lookup (files w1) q = (if cleared ?m c q then None else ?m q)"
    and dist1: "distinct (map fst (files w1))"
  proof (cases "clearable ?m c")
    case False
    then have nc: "\<not> cleared ?m c q" for q by (simp add: cleared_def)
    show ?thesis
    proof (cases "is_file (files w) c")
      case True
      with False have "\<not> removable (files w) c"
        by (simp add: clearable_def removable_unlocked)
      then obtain e where "unlink (files w) c = Inl e" by (simp add: unlink_cases)
      with True Cons.prems(1) dist show ?thesis
        by (intro that[of "log_warn (DidNotRemove c e) w" n]) (auto simp: nc)
    next
      case nf: False
      show ?thesis
      proof (cases "is_dir (files w) c")
        case True
        then have "clearable ?m c"
          using free[of c] by (auto simp: clearable_def is_dir_def)
        with False show ?thesis ..
      next
        case False
        with nf Cons.prems(1) dist show ?thesis
          by (intro that[of w n]) (auto simp: nc)
      qed
    qed
  next
    case True
    show ?thesis
    proof (cases "is_file (files w) c")
      case f: True
      then have nd: "?m c \<noteq> Some Dir" by (auto simp: is_file_regular regular_def)
      with True have r: "removable (files w) c" by (simp add: clearable_def removable_unlocked)
      then obtain fs' where u: "unlink (files w) c = Inr fs'" by (simp add: unlink_cases)
      have "lookup fs' q = (if cleared ?m c q then None else ?m q)" for q
        using lookup_unlink[OF u, of q] True nd by (auto simp: cleared_def)
      moreover have "distinct (map fst fs')"
        using u dist by (auto simp: unlink_cases distinct_map_filter split: if_splits)
      ultimately show ?thesis using f u Cons.prems(1)
        by (intro that[of "w\<lparr>files := fs'\<rparr>" "n + 1"]) auto
    next
      case nf: False
      with True have d: "?m c = Some Dir" "\<forall>r. prefix c r \<longrightarrow> \<not> locked_at ?m r"
        by (auto simp: clearable_def is_file_regular regular_def unlocked_def)
      define fs' where "fs' = filter (\<lambda>e. \<not> prefix c (fst e)) (files w)"
      have u: "rmtree (files w) c = (None, fs')"
        unfolding fs'_def using dist wf d by (rule rmtree_removes)
      have "lookup fs' q = (if cleared ?m c q then None else ?m q)" for q
        using True d by (auto simp: fs'_def lookup_def map_of_filter_not_prefix cleared_def)
      moreover have "distinct (map fst fs')"
        using dist by (simp add: fs'_def distinct_map_filter)
      ultimately show ?thesis using nf d(1) u Cons.prems(1)
        by (intro that[of "w\<lparr>files := fs'\<rparr>" "n + 1"]) (auto simp: is_dir_def)
    qed
  qed
  from Cons.prems(2) have sib: "child_of d c" "\<forall>c'\<in>set rest. child_of d c'" by simp_all
  have m1: "lookup (files w1) = (\<lambda>q. if cleared ?m c q then None else ?m q)"
    using w1 by (rule ext)
  have wf1: "wf_map (lookup (files w1))"
    unfolding m1 using wf by (rule wf_map_cleared)
  have free1: "\<forall>c'\<in>set rest. \<forall>r. lookup (files w1) c' = Some Dir \<and> prefix c' r
      \<longrightarrow> \<not> locked_at (lookup (files w1)) r"
  proof (intro ballI allI impI)
    fix c' r assume c': "c' \<in> set rest" and h: "lookup (files w1) c' = Some Dir \<and> prefix c' r"
    then have "?m c' = Some Dir" by (auto simp: w1 split: if_splits)
    with free[of c' r] c' h have "\<not> locked_at ?m r" by simp
    then show "\<not> locked_at (lookup (files w1)) r"
      by (auto simp: locked_at_def w1 split: if_splits)
  qed
  have ih: "lookup (files w') q =
     (if \<exists>c'\<in>set rest. cleared (lookup (files w1)) c' q then None else lookup (files w1) q)"
    using Cons.IH[OF step sib(2) dist1 wf1 free1] .
  have inv: "cleared (lookup (files w1)) c' q = cleared ?m c' q" if "c' \<in> set rest" "c' \<noteq> c" for c'
    using clearable_after_clearing[OF sib(1) _ that(2), of "lookup (files w1)" ?m q] sib(2) that(1) w1
    by blast
  have gone: "\<not> cleared (lookup (files w1)) c q" if "cleared ?m c c"
    using that w1[of c] by (auto simp: cleared_def clearable_def unlocked_def)
  have stay: "lookup (files w1) = ?m" if "\<not> cleared ?m c c"
  proof -
    from that have "\<not> cleared ?m c r" for r by (auto simp: cleared_def)
    then show ?thesis using w1 by auto
  qed
  show ?case
  proof (cases "cleared ?m c c")
    case True
    show ?thesis
    proof (cases "cleared ?m c q")
      case c: True
      then show ?thesis using ih w1[of q] by auto
    next
      case False
      have "cleared (lookup (files w1)) c' q = cleared ?m c' q" if "c' \<in> set rest" for c'
        using inv[OF that] gone[OF True] False by (cases "c' = c") simp_all
      then have "(\<exists>c'\<in>set rest. cleared (lookup (files w1)) c' q)
          = (\<exists>c'\<in>set rest. cleared ?m c' q)" by blast
      with False ih w1[of q] show ?thesis by simp
    qed
  next
    case False
    then have "\<not> cleared ?m c q" by (auto simp: cleared_def)
    with stay[OF False] ih show ?thesis by auto
  qed
qed

lemma purge_logs_map: "lookup (files (purge_logs bp w)) = logs_map bp (lookup (files w))"
  by (rule ext) (simp add: purge_logs_lookup logs_map_def is_dir_def removable_unlocked)

lemma purge_old_plugins_map: "lookup (files (purge_old_plugins bp w)) = old_map bp (lookup (files w))"
  by (rule ext) (simp add: purge_old_plugins_lookup old_map_def is_dir_def removable_unlocked)

lemma lookup_update: "lookup (AList.update p e fs) = (lookup fs)(p \<mapsto> e)"
  by (rule ext) (simp add: lookup_def update_conv')

lemma mkdir_updates:
  assumes "lookup fs bp = Some Dir" "lookup fs (bp @ [''plugins'', ''updates'']) \<noteq> Some Dir"
  shows "case mkdir_parents fs (bp @ [''plugins'', ''updates'']) of
           Inl e \<Rightarrow> \<not> (lookup fs (bp @ [''plugins'', ''updates'']) = None
                        \<and> \<not> regular (lookup fs) (bp @ [''plugins'']))
         | Inr fs' \<Rightarrow> lookup fs (bp @ [''plugins'', ''updates'']) = None
                        \<and> \<not> regular (lookup fs) (bp @ [''plugins''])
                        \<and> lookup fs' = (lookup fs)(bp @ [''plugins''] \<mapsto> Dir,
                                           bp @ [''plugins'', ''updates''] \<mapsto> Dir)"
proof -
  have b: "butlast (bp @ [''plugins'', ''updates'']) = bp @ [''plugins'']"
    by (simp add: butlast_append)
  have p: "mkdir_parents fs (bp @ [''plugins'']) =
      (case lookup fs (bp @ [''plugins'']) of Some Dir \<Rightarrow> Inr fs
       | Some (File c l) \<Rightarrow> Inl (FileExistsError (bp @ [''plugins'']))
       | None \<Rightarrow> Inr (AList.update (bp @ [''plugins'']) Dir fs))"
    using assms(1) by (subst mkdir_parents.simps) (simp split: option.splits entry.splits)
  show ?thesis
    using assms(2)
    by (subst mkdir_parents.simps)
      (auto simp: b p lookup_update regular_def fun_upd_idem_iff split: option.splits entry.splits)
qed

lemma cleared_exists: "cleared m c q \<Longrightarrow> m c \<noteq> None"
  by (auto simp: cleared_def clearable_def unlocked_def)

lemma reset_updates_map:
  assumes "lookup (files w) bp = Some Dir"
    and "distinct (map fst (files w))" and "wf_map (lookup (files w))"
    and free: "\<forall>c r. child_of (bp @ [''plugins'', ''updates'']) c \<and> lookup (files w) c = Some Dir
        \<and> prefix c r \<longrightarrow> \<not> locked_at (lookup (files w)) r"
  shows "lookup (files (reset_updates bp w)) = updates_map bp (lookup (files w))"
proof (cases "lookup (files w) (bp @ [''plugins'', ''updates'']) = Some Dir")
  case True
  let ?u = "bp @ [''plugins'', ''updates'']"
  obtain w' n' where l: "clear_loop (iterdir (files w) ?u) w 0 = (w', n')"
    by (cases "clear_loop (iterdir (files w) ?u) w 0")
  have fr: "\<forall>c\<in>set (iterdir (files w) ?u). \<forall>r. lookup (files w) c = Some Dir \<and> prefix c r
      \<longrightarrow> \<not> locked_at (lookup (files w)) r"
    using free by (auto simp: in_iterdir)
  have "(\<exists>c\<in>set (iterdir (files w) ?u). cleared (lookup (files w)) c q)
      = (\<exists>c. child_of ?u c \<and> cleared (lookup (files w)) c q)" for q
    using cleared_exists[of "lookup (files w)" _ q] by (auto simp: in_iterdir)
  then have "lookup (files w') q =
      (if \<exists>c. child_of ?u c \<and> cleared (lookup (files w)) c q then None else lookup (files w) q)" for q
    using clear_loop_lookup[OF l _ assms(2,3) fr, of ?u q] by (simp add: in_iterdir)
  with True l show ?thesis
    by (auto simp: reset_updates_def updates_map_def is_dir_def path_exists_def)
next
  case False
  with mkdir_updates[OF assms(1) False] show ?thesis
    by (auto simp: reset_updates_def updates_map_def is_dir_def path_exists_def Let_def
        split: sum.splits)
qed

lemma copy2_cases:
  "copy2 fs src dst =
     (if copy_ok (lookup fs) src dst
      then Inr (AList.update (target (lookup fs) src dst)
                  (File (content (the (lookup fs src))) False) fs)
      else Inl (case lookup fs src of
                  None \<Rightarrow> FileNotFoundError src
                | Some Dir \<Rightarrow> IsADirectoryError src
                | Some (File c l) \<Rightarrow>
                    if src = target (lookup fs) src dst
                    then SameFileError src (target (lookup fs) src dst)
                    else (case lookup fs (target (lookup fs) src dst) of
                            Some Dir \<Rightarrow> IsADirectoryError (target (lookup fs) src dst)
                          | Some (File c' l') \<Rightarrow> PermissionError (target (lookup fs) src dst)
                          | None \<Rightarrow> open_error fs (target (lookup fs) src dst))))"
  by (auto simp: copy2_def copy_ok_def target_def regular_def unlocked_def is_dir_def Let_def
      split: option.splits entry.splits)

lemma copy2_map:
  "lookup (case copy2 fs src dst of Inr fs' \<Rightarrow> fs' | Inl e \<Rightarrow> fs) = copy_map (lookup fs) src dst"
  by (simp add: copy2_cases copy_map_def lookup_update)

lemma copy_darkbot_jar_map:
  "lookup (files (copy_darkbot_jar bp dj w)) = darkbot_map bp dj (lookup (files w))"
  using copy2_map[of "files w" dj "bp @ [''DarkBot.jar'']"]
  by (auto simp: copy_darkbot_jar_def darkbot_map_def Let_def is_file_regular path_exists_def
      regular_def split: sum.splits)

lemma child_name: "child_of d j \<Longrightarrow> d @ [name j] = j"
  by (auto simp: child_of_def name_def)

lemma name_target [simp]: "name (target m j (u @ [name j])) = name j"
  by (simp add: target_def name_def)

lemma copy_map_is_dir: "(copy_map m src dst p = Some Dir) = (m p = Some Dir)"
  by (auto simp: copy_map_def copy_ok_def unlocked_def)

lemma target_copy_map [simp]: "target (copy_map m src dst) a b = target m a b"
  by (simp add: target_def copy_map_is_dir)

lemma copy_ok_after_copy:
  assumes "child_of ps j" "child_of ps j'"
  shows "copy_ok (copy_map m j (u @ [name j])) j' (u @ [name j']) = copy_ok m j' (u @ [name j'])"
proof (cases "copy_ok m j (u @ [name j])")
  case False
  then show ?thesis by (simp add: copy_map_def)
next
  case True
  define t where "t = target m j (u @ [name j])"
  define t' where "t' = target m j' (u @ [name j'])"
  define m1 where "m1 = copy_map m j (u @ [name j])"
  have nt: "name t = name j" "name t' = name j'" by (simp_all add: t_def t'_def)
  have at: "m1 t = Some (File (content (the (m j))) False)"
    and other: "\<And>p. p \<noteq> t \<Longrightarrow> m1 p = m p"
    using True by (simp_all add: m1_def copy_map_def t_def)
  have dir: "\<And>p. (m1 p = Some Dir) = (m p = Some Dir)"
    by (simp add: m1_def copy_map_is_dir)
  have jt: "j \<noteq> t" using True by (simp add: copy_ok_def t_def)
  have j't: "j' \<noteq> t"
  proof
    assume "j' = t"
    with nt have "name j' = name j" by simp
    with assms have "j' = j" by (metis child_name)
    with \<open>j' = t\<close> jt show False by simp
  qed
  have e1: "copy_ok m1 j' (u @ [name j']) =
      (regular m1 j' \<and> j' \<noteq> t' \<and>
       (unlocked m1 t' \<or> (m1 t' = None \<and> t' \<noteq> [] \<and> m1 (butlast t') = Some Dir)))"
    by (simp add: copy_ok_def m1_def t'_def)
  have e0: "copy_ok m j' (u @ [name j']) =
      (regular m j' \<and> j' \<noteq> t' \<and>
       (unlocked m t' \<or> (m t' = None \<and> t' \<noteq> [] \<and> m (butlast t') = Some Dir)))"
    by (simp add: copy_ok_def t'_def)
  have reg: "regular m1 j' = regular m j'"
    by (simp add: regular_def other[OF j't])
  show ?thesis
  proof (cases "t' = t")
    case same: True
    with nt have "name j' = name j" by simp
    with assms have jj: "j' = j" by (metis child_name)
    have "copy_ok m j' (u @ [name j'])" using True jj by simp
    moreover have "unlocked m1 t'" using at same by (simp add: unlocked_def)
    moreover have "regular m j'" "j' \<noteq> t'" using True jj jt same by (simp_all add: copy_ok_def)
    ultimately show ?thesis unfolding m1_def[symmetric] e1 reg by simp
  next
    case False
    then have "m1 t' = m t'" by (rule other)
    then have "unlocked m1 t' = unlocked m t'" "(m1 t' = None) = (m t' = None)"
      by (simp_all add: unlocked_def)
    then show ?thesis unfolding m1_def[symmetric] e1 e0 reg dir by simp
  qed
qed

lemma plugin_write_after_copy:
  assumes "child_of ps j" "child_of ps j'"
  shows "plugin_write u (copy_map m j (u @ [name j])) j' q = plugin_write u m j' q"
  by (simp add: plugin_write_def copy_ok_after_copy[OF assms])

lemma source_after_copy:
  assumes "child_of ps j" "child_of ps j'" "plugin_write u m j' q"
  shows "copy_map m j (u @ [name j]) (ps @ [name q]) = m (ps @ [name q])"
proof -
  from assms(3) have "name q = name j'" by (simp add: plugin_write_def)
  with assms(2) have e: "ps @ [name q] = j'" by (simp add: child_name)
  show ?thesis
  proof (cases "copy_ok m j (u @ [name j])")
    case False
    then show ?thesis by (simp add: copy_map_def)
  next
    case True
    have "j' \<noteq> target m j (u @ [name j])"
    proof
      assume a: "j' = target m j (u @ [name j])"
      then have "name j' = name j" by (metis name_target)
      with assms(1,2) have "j' = j" by (metis child_name)
      with a True show False by (simp add: copy_ok_def)
    qed
    with True e show ?thesis by (simp add: copy_map_def)
  qed
qed

lemma copy_loop_lookup:
  "copy_loop u js w n = (w', n') \<Longrightarrow> (\<forall>j\<in>set js. child_of ps j) \<Longrightarrow>
   lookup (files w') q =
     (if \<exists>j\<in>set js. plugin_write u (lookup (files w)) j q
      then Some (File (content (the (lookup (files w) (ps @ [name q])))) False)
      else lookup (files w) q)"
proof (induction js arbitrary: w n)
  case Nil
  then show ?case by simp
next
  case (Cons j rest)
  let ?m = "lookup (files w)"
  from Cons.prems(2) have ch: "child_of ps j" "\<forall>j'\<in>set rest. child_of ps j'" by simp_all
  show ?case
  proof (cases "name j = ''DarkBot.jar''")
    case True
    with Cons.prems(1) have
      "copy_loop u rest (log_warn (SkippedDarkBotInPlugins (name j)) w) n = (w', n')" by simp
    moreover have "\<not> plugin_write u ?m j q" using True by (simp add: plugin_write_def)
    ultimately show ?thesis using Cons.IH[OF _ ch(2), of _ n] by simp
  next
    case False
    let ?m1 = "copy_map ?m j (u @ [name j])"
    obtain w1 n1 where step: "copy_loop u rest w1 n1 = (w', n')"
      and w1: "lookup (files w1) = ?m1"
    proof (cases "copy2 (files w) j (u @ [name j])")
      case (Inl e)
      with False Cons.prems(1) copy2_map[of "files w" j "u @ [name j]"] show ?thesis
        by (intro that[of "log_warn (FailedToCopy j u e) w" n]) simp_all
    next
      case (Inr fs')
      with False Cons.prems(1) copy2_map[of "files w" j "u @ [name j]"] show ?thesis
        by (intro that[of "w\<lparr>files := fs'\<rparr>" "n + 1"]) simp_all
    qed
    have ih: "lookup (files w') q =
       (if \<exists>j'\<in>set rest. plugin_write u ?m1 j' q
        then Some (File (content (the (?m1 (ps @ [name q])))) False) else ?m1 q)"
      using Cons.IH[OF step ch(2), unfolded w1] .
    have pw: "plugin_write u ?m1 j' q = plugin_write u ?m j' q" if "j' \<in> set rest" for j'
      using plugin_write_after_copy[OF ch(1)] ch(2) that by blast
    show ?thesis
    proof (cases "\<exists>j'\<in>set rest. plugin_write u ?m j' q")
      case True
      then obtain j' where j': "j' \<in> set rest" "plugin_write u ?m j' q" by blast
      then have "?m1 (ps @ [name q]) = ?m (ps @ [name q])"
        using source_after_copy[OF ch(1)] ch(2) by blast
      with True ih pw show ?thesis by auto
    next
      case nr: False
      then have n1: "\<not> (\<exists>j'\<in>set rest. plugin_write u ?m1 j' q)" using pw by blast
      show ?thesis
      proof (cases "plugin_write u ?m j q")
        case True
        then have "?m1 q = Some (File (content (the (?m j))) False)" "name q = name j"
          by (simp_all add: plugin_write_def copy_map_def)
        with True ih n1 ch(1) show ?thesis by (simp add: child_name)
      next
        case False
        then have "?m1 q = ?m q"
          using \<open>name j \<noteq> ''DarkBot.jar''\<close> by (auto simp: plugin_write_def copy_map_def)
        with False ih n1 nr show ?thesis by simp
      qed
    qed
  qed
qed

lemma copy_plugin_jars_map:
  "lookup (files (copy_plugin_jars bp ps w)) = plugins_map bp ps (lookup (files w))"
proof (cases "lookup (files w) ps = Some Dir")
  case False
  then show ?thesis
    by (simp add: copy_plugin_jars_def plugins_map_def is_dir_def)
next
  case True
  let ?u = "bp @ [''plugins'', ''updates'']" and ?m = "lookup (files w)"
  obtain w' n' where l: "copy_loop ?u (glob_jar (files w) ps) w 0 = (w', n')"
    by (cases "copy_loop ?u (glob_jar (files w) ps) w 0")
  have ch: "\<forall>j\<in>set (glob_jar (files w) ps). child_of ps j" by (simp add: in_glob_jar)
  have "(\<exists>j\<in>set (glob_jar (files w) ps). plugin_write ?u ?m j q)
      = (\<exists>j. child_of ps j \<and> ends_with ''.jar'' (name j) \<and> plugin_write ?u ?m j q)" for q
    by (auto simp: in_glob_jar in_keys_lookup plugin_write_def copy_ok_def regular_def)
  then have "lookup (files w') q = plugins_map bp ps ?m q" for q
    using copy_loop_lookup[OF l ch, of q] True by (simp add: plugins_map_def)
  with True l show ?thesis
    by (auto simp: copy_plugin_jars_def is_dir_def path_exists_def)
qed

lemma logs_map_dir [simp]: "(logs_map bp m p = Some Dir) = (m p = Some Dir)"
  by (auto simp: logs_map_def unlocked_def)

lemma old_map_dir [simp]: "(old_map bp m p = Some Dir) = (m p = Some Dir)"
  by (auto simp: old_map_def unlocked_def)

lemma wf_map_purged: "wf_map m \<Longrightarrow> wf_map (old_map bp (logs_map bp m))"
  unfolding wf_map_def
proof (intro allI impI)
  fix q assume wf: "\<forall>q. q \<noteq> [] \<and> m q \<noteq> None \<longrightarrow> m (butlast q) = Some Dir"
    and q: "q \<noteq> [] \<and> old_map bp (logs_map bp m) q \<noteq> None"
  then have "m q \<noteq> None" by (auto simp: old_map_def logs_map_def split: if_splits)
  with wf q have "m (butlast q) = Some Dir" by blast
  then show "old_map bp (logs_map bp m) (butlast q) = Some Dir" by simp
qed

lemma unlink_loop_distinct:
  "distinct (map fst (files w)) \<Longrightarrow>
   distinct (map fst (files (fst (unlink_loop warning ps w n))))"
proof (induction ps arbitrary: w n)
  case Nil
  then show ?case by simp
next
  case (Cons f rest)
  show ?case
  proof (cases "unlink (files w) f")
    case (Inl e)
    with Cons show ?thesis by simp
  next
    case (Inr fs')
    with Cons.prems have "distinct (map fst fs')"
      by (auto simp: unlink_cases distinct_map_filter split: if_splits)
    with Inr Cons.IH[of "w\<lparr>files := fs'\<rparr>"] show ?thesis by simp
  qed
qed

lemma purged_distinct:
  assumes "distinct (map fst (files w))"
  shows "distinct (map fst (files (purge_old_plugins bp (purge_logs bp w))))"
proof -
  have 1: "distinct (map fst (files (purge_logs bp w)))"
    using unlink_loop_distinct[OF assms, of DidNotRemoveLogFile
        "rglob_log (files w) (bp @ [''logs''])" 0] assms
    by (auto simp: purge_logs_def Let_def split: prod.splits)
  show ?thesis
    using unlink_loop_distinct[OF 1, of DidNotRemove
        "glob_jar (files (purge_logs bp w)) (bp @ [''plugins'', ''old''])" 0] 1
    by (auto simp: purge_old_plugins_def Let_def split: prod.splits)
qed

lemma locked_at_purged:
  "locked_at (old_map bp (logs_map bp m)) r \<Longrightarrow> locked_at m r"
  by (auto simp: locked_at_def old_map_def logs_map_def split: if_splits)

lemma process_single_bot_map:
  assumes "lookup (files w) bp = Some Dir" and "wf_fs (files w)"
    and free: "\<forall>c r. child_of (bp @ [''plugins'', ''updates'']) c \<and> lookup (files w) c = Some Dir
        \<and> prefix c r \<longrightarrow> \<not> locked_at (lookup (files w)) r"
  shows "lookup (files (snd (process_single_bot bp dj ps w))) = process_map bp dj ps (lookup (files w))"
proof -
  let ?w2 = "purge_old_plugins bp (purge_logs bp w)"
  have m2: "lookup (files ?w2) = old_map bp (logs_map bp (lookup (files w)))"
    by (simp add: purge_old_plugins_map purge_logs_map)
  have "lookup (files ?w2) bp = Some Dir" using assms(1) by (simp add: m2)
  moreover have "distinct (map fst (files ?w2))"
    using assms(2) by (intro purged_distinct) (simp add: wf_fs_def)
  moreover have "wf_map (lookup (files ?w2))"
    unfolding m2 using wf_fs_map[OF assms(2)] by (rule wf_map_purged)
  moreover have "\<forall>c r. child_of (bp @ [''plugins'', ''updates'']) c \<and> lookup (files ?w2) c = Some Dir
        \<and> prefix c r \<longrightarrow> \<not> locked_at (lookup (files ?w2)) r"
    unfolding m2 using free by (auto dest: locked_at_purged)
  ultimately have "lookup (files (reset_updates bp ?w2)) = updates_map bp (lookup (files ?w2))"
    by (rule reset_updates_map)
  with assms(1) show ?thesis
    by (simp add: process_single_bot_def process_map_def is_dir_def path_exists_def
        copy_plugin_jars_map copy_darkbot_jar_map m2)
qed

section \<open>Blocks 3 to 5, run twice\<close>

text \<open>The application jar: what the block changes, and that a second copy changes nothing.\<close>

lemma darkbot_map_dir: "(darkbot_map bp dj m p = Some Dir) = (m p = Some Dir)"
  by (simp add: darkbot_map_def copy_map_is_dir)

lemma darkbot_map_changes:
  assumes "darkbot_map bp dj m p \<noteq> m p"
  shows "(p = bp @ [''DarkBot.jar''] \<or> p = bp @ [''DarkBot.jar'', ''DarkBot.jar''])
         \<and> unlocked (darkbot_map bp dj m) p"
proof -
  from assms have c: "regular m dj" "name dj = ''DarkBot.jar''" "copy_ok m dj (bp @ [''DarkBot.jar''])"
    and p: "p = target m dj (bp @ [''DarkBot.jar''])"
    by (auto simp: darkbot_map_def copy_map_def split: if_splits)
  then show ?thesis
    by (auto simp: darkbot_map_def copy_map_def target_def unlocked_def)
qed

lemma darkbot_map_stable:
  assumes same: "\<And>p. name p = ''DarkBot.jar'' \<or> p = bp \<Longrightarrow> m' p = darkbot_map bp dj m p"
  shows "darkbot_map bp dj m' = m'"
proof (cases "regular m dj \<and> name dj = ''DarkBot.jar''")
  case False
  then have "darkbot_map bp dj m = m" by (auto simp: darkbot_map_def)
  with same False have "\<not> (regular m' dj \<and> name dj = ''DarkBot.jar'')"
    by (auto simp: regular_def)
  then show ?thesis by (auto simp: darkbot_map_def)
next
  case True
  define y where "y = darkbot_map bp dj m"
  define t where "t = target m dj (bp @ [''DarkBot.jar''])"
  have nt: "name t = ''DarkBot.jar''" using True by (auto simp: t_def target_def name_def)
  have bt: "name (butlast t) = ''DarkBot.jar'' \<or> butlast t = bp"
    by (auto simp: t_def target_def name_def butlast_append)
  have tne: "t \<noteq> []" by (simp add: t_def target_def)
  have t': "target m' dj (bp @ [''DarkBot.jar'']) = t"
    using same[of "bp @ [''DarkBot.jar'']"] darkbot_map_dir[of bp dj m "bp @ [''DarkBot.jar'']"]
    by (simp add: target_def t_def name_def)
  have ty: "target y dj (bp @ [''DarkBot.jar'']) = t"
    by (simp add: target_def t_def y_def darkbot_map_dir)
  have m'dj: "m' dj = y dj" "m' t = y t" "m' (butlast t) = y (butlast t)"
    using same True nt bt by (auto simp: y_def)
  show ?thesis
  proof (cases "copy_ok m dj (bp @ [''DarkBot.jar''])")
    case ok: True
    then have y: "y = m(t \<mapsto> File (content (the (m dj))) False)" and djt: "dj \<noteq> t"
      using True by (simp_all add: y_def darkbot_map_def copy_map_def t_def copy_ok_def)
    then have "y dj = m dj" "y t = Some (File (content (the (m dj))) False)" by simp_all
    with m'dj True have "regular m' dj" "m' t = Some (File (content (the (m' dj))) False)"
      by (simp_all add: regular_def)
    with True djt t' show ?thesis
      by (auto simp: darkbot_map_def copy_map_def copy_ok_def unlocked_def)
  next
    case no: False
    then have y: "y = m" using True by (simp add: y_def darkbot_map_def copy_map_def)
    from no m'dj have "\<not> copy_ok m' dj (bp @ [''DarkBot.jar''])"
      unfolding copy_ok_def t' t_def[symmetric] y by (simp add: regular_def unlocked_def)
    then show ?thesis by (simp add: darkbot_map_def copy_map_def)
  qed
qed

lemma darkbot_map_idem: "darkbot_map bp dj (darkbot_map bp dj m) = darkbot_map bp dj m"
  by (rule darkbot_map_stable) simp

text \<open>The staging folder: after the block nothing in it could be cleared once more.\<close>

lemma cleared_below:
  "child_of u c \<Longrightarrow> cleared m c q \<Longrightarrow> strict_prefix u q \<and> prefix c q"
proof -
  assume c: "child_of u c" and cl: "cleared m c q"
  from c have e: "c = u @ [last c]" by (auto simp: child_of_def)
  from cl have p: "prefix c q" by (auto simp: cleared_def)
  then obtain r where "q = c @ r" by (auto elim: prefixE)
  with e have "q = u @ (last c # r)" by (metis append_Cons append_Nil append.assoc)
  then have "strict_prefix u q" by (simp add: strict_prefixI')
  with p show ?thesis by simp
qed

lemma updates_map_outside:
  "\<not> strict_prefix (bp @ [''plugins'', ''updates'']) q \<Longrightarrow> m q = Some Dir \<Longrightarrow>
   updates_map bp m q = Some Dir"
  by (auto simp: updates_map_def dest: cleared_below)

lemma updates_map_failed:
  assumes "updates_map bp m (bp @ [''plugins'', ''updates'']) \<noteq> Some Dir"
  shows "updates_map bp m = m \<and> m (bp @ [''plugins'', ''updates'']) \<noteq> Some Dir
         \<and> \<not> (m (bp @ [''plugins'', ''updates'']) = None \<and> \<not> regular m (bp @ [''plugins'']))"
proof -
  have "m (bp @ [''plugins'', ''updates'']) \<noteq> Some Dir"
    using assms updates_map_outside[of bp "bp @ [''plugins'', ''updates'']" m] by auto
  with assms show ?thesis by (auto simp: updates_map_def split: if_splits)
qed

lemma no_clearable_after:
  assumes wf: "wf_map m" and d: "updates_map bp m (bp @ [''plugins'', ''updates'']) = Some Dir"
    and c: "child_of (bp @ [''plugins'', ''updates'']) c"
  shows "\<not> clearable (updates_map bp m) c"
proof (cases "m (bp @ [''plugins'', ''updates'']) = Some Dir")
  case True
  let ?u = "bp @ [''plugins'', ''updates'']"
  have x: "updates_map bp m q = (if \<exists>c'. child_of ?u c' \<and> cleared m c' q then None else m q)" for q
    using True by (simp add: updates_map_def)
  have only: "cleared m c r" if "child_of ?u c'" "cleared m c' r" "prefix c r" for c' r
    using siblings_not_prefix[OF c that(1) that(3)] cleared_below[OF that(1,2)] that(2) by auto
  show ?thesis
  proof
    assume cl: "clearable (updates_map bp m) c"
    then have ex: "updates_map bp m c \<noteq> None" by (auto simp: clearable_def unlocked_def)
    then have nc: "\<not> clearable m c" using x[of c] c by (auto simp: cleared_def split: if_splits)
    from ex have xc: "updates_map bp m c = m c" using x[of c] by (auto split: if_splits)
    from nc have ncl: "\<not> cleared m c r" for r by (simp add: cleared_def)
    have below: "updates_map bp m r = m r" if "prefix c r" for r
      using x[of r] only[OF _ _ that] ncl by auto
    from cl xc nc have "m c = Some Dir" "\<forall>r. prefix c r \<longrightarrow> \<not> locked_at (updates_map bp m) r"
      by (auto simp: clearable_def unlocked_def)
    with below have "\<forall>r. prefix c r \<longrightarrow> \<not> locked_at m r" by (simp add: locked_at_def)
    with \<open>m c = Some Dir\<close> nc show False by (simp add: clearable_def)
  qed
next
  case False
  let ?u = "bp @ [''plugins'', ''updates'']"
  from c have sp: "strict_prefix ?u c" by (rule child_strict)
  have "m c = None" using wf_map_below[OF wf False sp] .
  moreover from c have "c \<noteq> ?u" "c \<noteq> bp @ [''plugins'']" using sp by (auto simp: strict_prefix_def)
  ultimately have "updates_map bp m c = None"
    using False by (auto simp: updates_map_def)
  then show ?thesis by (simp add: clearable_def unlocked_def)
qed

text \<open>The plugin jars: what the block writes.\<close>

lemma plugin_write_facts:
  assumes "plugin_write u m j q"
  shows "name q = name j" "name j \<noteq> ''DarkBot.jar''" "q = u @ [name j] \<or> q = u @ [name j, name j]"
    "unlocked m q \<or> m q = None" "j \<noteq> q" "regular m j" "copy_ok m j (u @ [name j])"
    "q = target m j (u @ [name j])"
  using assms by (auto simp: plugin_write_def copy_ok_def target_def name_def)

lemma plugins_map_at:
  "plugins_map bp ps m q =
     (if m ps = Some Dir \<and> (\<exists>j. child_of ps j \<and> ends_with ''.jar'' (name j)
            \<and> plugin_write (bp @ [''plugins'', ''updates'']) m j q)
      then Some (File (content (the (m (ps @ [name q])))) False) else m q)"
  by (auto simp: plugins_map_def)

lemma plugins_map_dir: "(plugins_map bp ps m p = Some Dir) = (m p = Some Dir)"
  by (auto simp: plugins_map_at unlocked_def dest!: plugin_write_facts(4))

lemma darkbot_map_elsewhere:
  assumes "prefix (bp @ [''plugins'']) p"
  shows "darkbot_map bp dj m p = m p"
proof (rule ccontr)
  assume "darkbot_map bp dj m p \<noteq> m p"
  then have "p = bp @ [''DarkBot.jar''] \<or> p = bp @ [''DarkBot.jar'', ''DarkBot.jar'']"
    using darkbot_map_changes by blast
  with assms show False by auto
qed

lemma clearable_cong:
  assumes "\<And>r. prefix c r \<Longrightarrow> m' r = m r"
  shows "clearable m' c = clearable m c"
  using assms by (simp add: clearable_def unlocked_def locked_at_def)

text \<open>Blocks 3 to 5 done twice leave what they leave when done once.\<close>

lemma install_failed_twice:
  assumes wf: "wf_map m"
    and nd: "updates_map bp m (bp @ [''plugins'', ''updates'']) \<noteq> Some Dir"
  shows "plugins_map bp ps (darkbot_map bp dj (updates_map bp m)) = darkbot_map bp dj m
    \<and> updates_map bp (darkbot_map bp dj m) = darkbot_map bp dj m"
proof -
  let ?u = "bp @ [''plugins'', ''updates'']"
  define y where "y = darkbot_map bp dj m"
  from updates_map_failed[OF nd] have x: "updates_map bp m = m"
    and mu: "m ?u \<noteq> Some Dir"
    and mk: "\<not> (m ?u = None \<and> \<not> regular m (bp @ [''plugins'']))" by simp_all
  have yu: "y ?u = m ?u" "y (bp @ [''plugins'']) = m (bp @ [''plugins''])"
    by (simp_all add: y_def darkbot_map_elsewhere)
  have below: "y q = None" if "strict_prefix ?u q" for q
  proof -
    from that have "prefix (bp @ [''plugins'']) q"
      by (auto simp: strict_prefix_def prefix_def)
    then have "y q = m q" by (simp add: y_def darkbot_map_elsewhere)
    with wf_map_below[OF wf mu that] show ?thesis by simp
  qed
  have now: "\<not> plugin_write ?u y j q" for j q
  proof
    assume "plugin_write ?u y j q"
    then have ok: "copy_ok y j (?u @ [name j])" by (rule plugin_write_facts)
    have "y (?u @ [name j]) = None" by (rule below) (simp add: strict_prefixI')
    then have t: "target y j (?u @ [name j]) = ?u @ [name j]" by (simp add: target_def)
    from ok show False
      unfolding copy_ok_def t using \<open>y (?u @ [name j]) = None\<close> yu(1) mu
      by (simp add: unlocked_def butlast_append)
  qed
  have "plugins_map bp ps y = y" by (rule ext) (simp add: plugins_map_at now)
  moreover have "updates_map bp y = y"
    using yu mu mk by (auto simp: updates_map_def regular_def)
  ultimately show ?thesis by (simp add: x y_def)
qed

lemma install_cleared_twice:
  fixes m :: pmap and bp dj ps :: path
  assumes wf: "wf_map m"
    and d: "updates_map bp m (bp @ [''plugins'', ''updates'']) = Some Dir"
  defines "y \<equiv> darkbot_map bp dj (updates_map bp m)"
  defines "z \<equiv> plugins_map bp ps (darkbot_map bp dj (updates_map bp m))"
  shows "plugins_map bp ps (darkbot_map bp dj (updates_map bp z)) = z"
proof -
  let ?u = "bp @ [''plugins'', ''updates'']"
  define x where "x = updates_map bp m"
  define W where "W q = (y ps = Some Dir \<and>
      (\<exists>j. child_of ps j \<and> ends_with ''.jar'' (name j) \<and> plugin_write ?u y j q))" for q
  define x' where "x' = updates_map bp z"
  have y: "y = darkbot_map bp dj x" and z: "z = plugins_map bp ps y"
    by (simp_all add: y_def z_def x_def)
  have yx: "y p = x p" if "prefix ?u p" for p
  proof -
    from that have "prefix (bp @ [''plugins'']) p" by (auto simp: prefix_def)
    then show ?thesis by (simp add: y darkbot_map_elsewhere)
  qed
  have yu: "y ?u = Some Dir" using d yx[of ?u] by (simp add: x_def)
  have F1: "\<not> clearable y c" if "child_of ?u c" for c
  proof -
    have "clearable y c = clearable x c"
    proof (rule clearable_cong)
      fix r assume "prefix c r"
      with child_strict[OF that] have "prefix ?u r"
        by (meson prefix_order.dual_order.strict_implies_order prefix_order.trans)
      then show "y r = x r" by (rule yx)
    qed
    with no_clearable_after[OF wf d that] show ?thesis by (simp add: x_def)
  qed
  have z_at: "z q = (if W q then Some (File (content (the (y (ps @ [name q])))) False) else y q)" for q
    by (simp add: z plugins_map_at W_def)
  have zdir: "(z p = Some Dir) = (y p = Some Dir)" for p
    by (simp add: z plugins_map_dir)
  have Wy: "unlocked y q \<or> y q = None" if "W q" for q
  proof -
    from that obtain j where "plugin_write ?u y j q" by (auto simp: W_def)
    then show ?thesis by (rule plugin_write_facts(4))
  qed
  have Wchild: "y q = None" if "W q" "child_of ?u q" for q
    using Wy[OF that(1)] F1[OF that(2)] by (auto simp: clearable_def)
  have cl: "cleared z c q = (q = c \<and> W c)" if c: "child_of ?u c" for c q
  proof
    assume a: "cleared z c q"
    then have cz: "clearable z c" by (simp add: cleared_def)
    show "q = c \<and> W c"
    proof (cases "unlocked z c")
      case True
      have "W c"
      proof (rule ccontr)
        assume "\<not> W c"
        with True have "unlocked y c" by (simp add: z_at unlocked_def)
        with F1[OF c] show False by (simp add: clearable_def)
      qed
      moreover from True have "z c \<noteq> Some Dir" by (auto simp: unlocked_def)
      with a have "q = c" by (simp add: cleared_def)
      ultimately show ?thesis by simp
    next
      case False
      with cz have zd: "z c = Some Dir" and nl: "\<forall>r. prefix c r \<longrightarrow> \<not> locked_at z r"
        by (simp_all add: clearable_def)
      from zd have yd: "y c = Some Dir" by (simp add: zdir)
      with F1[OF c] obtain r where r: "prefix c r" "locked_at y r"
        by (auto simp: clearable_def)
      from r(2) Wy[of r] have "\<not> W r" by (auto simp: locked_at_def unlocked_def)
      then have "z r = y r" by (simp add: z_at)
      with r nl show ?thesis by (auto simp: locked_at_def)
    qed
  next
    assume "q = c \<and> W c"
    then show "cleared z c q" by (simp add: cleared_def clearable_def unlocked_def z_at)
  qed
  have zu: "z ?u = Some Dir" by (simp add: zdir yu)
  have x'_at: "x' q = (if W q \<and> child_of ?u q then None else z q)" for q
  proof -
    have "(\<exists>c. child_of ?u c \<and> cleared z c q) = (W q \<and> child_of ?u q)"
      using cl by auto
    with zu show ?thesis by (simp add: x'_def updates_map_def)
  qed
  have diff: "W q \<and> \<not> child_of ?u q \<and> x' q = z q" if "x' q \<noteq> y q" for q
    using that Wchild[of q] by (auto simp: x'_at z_at split: if_splits)
  have x'W: "x' q = y q" if "\<not> W q" for q
    using that diff[of q] by blast
  have x'dir: "(x' p = Some Dir) = (y p = Some Dir)" for p
    using diff[of p] zdir[of p] by (cases "x' p = y p") auto
  have Wname: "name q \<noteq> ''DarkBot.jar'' \<and> q \<noteq> bp" if "W q" for q
  proof -
    from that obtain j where "plugin_write ?u y j q" by (auto simp: W_def)
    from plugin_write_facts(1,2,3)[OF this] show ?thesis by auto
  qed
  have dark: "darkbot_map bp dj x' = x'"
  proof (rule darkbot_map_stable[of _ _ _ x])
    fix p assume "name p = ''DarkBot.jar'' \<or> p = bp"
    with Wname[of p] have "\<not> W p" by auto
    then show "x' p = darkbot_map bp dj x p" by (simp add: x'W y)
  qed
  have src: "x' j = y j" if "child_of ps j" for j
  proof (rule ccontr)
    assume "x' j \<noteq> y j"
    with diff have "W j" by blast
    then obtain j2 where j2: "child_of ps j2" "plugin_write ?u y j2 j" by (auto simp: W_def)
    from plugin_write_facts(1)[OF j2(2)] that j2(1) have "j2 = j" by (metis child_name)
    with plugin_write_facts(5)[OF j2(2)] show False by simp
  qed
  have tg: "target x' a b = target y a b" for a b
    by (simp add: target_def x'dir)
  have ok: "copy_ok x' j (?u @ [name j]) = copy_ok y j (?u @ [name j])" if j: "child_of ps j" for j
  proof (cases "x' (target y j (?u @ [name j])) = y (target y j (?u @ [name j]))")
    case True
    then show ?thesis
      unfolding copy_ok_def tg by (simp add: regular_def unlocked_def src[OF j] x'dir)
  next
    case False
    let ?t = "target y j (?u @ [name j])"
    from diff[OF False] have Wt: "W ?t" and xt: "x' ?t = z ?t" by simp_all
    from Wt obtain j2 where j2: "child_of ps j2" "plugin_write ?u y j2 ?t" by (auto simp: W_def)
    from plugin_write_facts(1)[OF j2(2)] have "name j2 = name j" by (metis name_target)
    with j j2(1) have "j2 = j" by (metis child_name)
    with j2(2) have oky: "copy_ok y j (?u @ [name j])" by (simp add: plugin_write_def)
    moreover from Wt xt have "unlocked x' ?t" by (simp add: z_at unlocked_def)
    moreover from oky have "regular y j" "j \<noteq> ?t" by (simp_all add: copy_ok_def)
    ultimately show ?thesis
      unfolding copy_ok_def[of x'] tg by (simp add: regular_def src[OF j])
  qed
  have pw: "plugin_write ?u x' j q = plugin_write ?u y j q" if "child_of ps j" for j q
    unfolding plugin_write_def ok[OF that] tg by (rule refl)
  have W': "(x' ps = Some Dir \<and>
      (\<exists>j. child_of ps j \<and> ends_with ''.jar'' (name j) \<and> plugin_write ?u x' j q)) = W q" for q
    using pw by (auto simp: W_def x'dir)
  have cont: "x' (ps @ [name q]) = y (ps @ [name q])" if "W q" for q
  proof -
    from that obtain j where j: "child_of ps j" "plugin_write ?u y j q" by (auto simp: W_def)
    from plugin_write_facts(1)[OF j(2)] j(1) have "ps @ [name q] = j" by (simp add: child_name)
    with src[OF j(1)] show ?thesis by simp
  qed
  have "plugins_map bp ps x' q = z q" for q
    unfolding plugins_map_at W' by (simp add: z_at cont x'W)
  then have "plugins_map bp ps x' = z" by (rule ext)
  with dark show ?thesis by (simp add: x'_def)
qed

lemma install_twice:
  assumes "wf_map m"
  shows "plugins_map bp ps (darkbot_map bp dj (updates_map bp
           (plugins_map bp ps (darkbot_map bp dj (updates_map bp m)))))
         = plugins_map bp ps (darkbot_map bp dj (updates_map bp m))"
proof (cases "updates_map bp m (bp @ [''plugins'', ''updates'']) = Some Dir")
  case True
  from install_cleared_twice[OF assms True] show ?thesis .
next
  case False
  from install_failed_twice[OF assms False, of ps dj] updates_map_failed[OF False]
  show ?thesis by (simp add: darkbot_map_idem)
qed

text \<open>What blocks 3 to 5 can change at a path.\<close>

lemma updates_map_changes:
  assumes "updates_map bp m q \<noteq> m q"
  shows "updates_map bp m q = None
    \<or> (updates_map bp m q = Some Dir \<and> (q = bp @ [''plugins''] \<or> q = bp @ [''plugins'', ''updates'']))"
  using assms by (auto simp: updates_map_def split: if_splits)

lemma ends_with_jar_not_log: "ends_with ''.jar'' s \<Longrightarrow> \<not> ends_with ''.log'' s"
  by (auto simp: ends_with_def)

lemma install_changes:
  assumes "plugins_map bp ps (darkbot_map bp dj (updates_map bp m)) q \<noteq> m q"
  shows "plugins_map bp ps (darkbot_map bp dj (updates_map bp m)) q = None
    \<or> (plugins_map bp ps (darkbot_map bp dj (updates_map bp m)) q = Some Dir
        \<and> (q = bp @ [''plugins''] \<or> q = bp @ [''plugins'', ''updates'']))
    \<or> (unlocked (plugins_map bp ps (darkbot_map bp dj (updates_map bp m))) q
        \<and> ends_with ''.jar'' (name q) \<and> \<not> child_of (bp @ [''plugins'', ''old'']) q)"
proof -
  define x where "x = updates_map bp m"
  define y where "y = darkbot_map bp dj x"
  define z where "z = plugins_map bp ps y"
  show ?thesis
  proof (cases "z q = y q")
    case False
    then have c: "y ps = Some Dir \<and> (\<exists>j. child_of ps j \<and> ends_with ''.jar'' (name j)
            \<and> plugin_write (bp @ [''plugins'', ''updates'']) y j q)"
      by (rule contrapos_np) (auto simp: z_def plugins_map_at)
    then have zq: "z q = Some (File (content (the (y (ps @ [name q])))) False)"
      by (simp add: z_def plugins_map_at)
    from c obtain j where j: "ends_with ''.jar'' (name j)"
        "plugin_write (bp @ [''plugins'', ''updates'']) y j q" by blast
    from plugin_write_facts(1,3)[OF j(2)] j(1)
    have "ends_with ''.jar'' (name q)" "\<not> child_of (bp @ [''plugins'', ''old'']) q"
      by (auto simp: child_of_def butlast_append)
    with zq show ?thesis by (simp add: unlocked_def z_def y_def x_def)
  next
    case zy: True
    show ?thesis
    proof (cases "y q = x q")
      case False
      from darkbot_map_changes[OF False[unfolded y_def]]
      have "unlocked y q" "ends_with ''.jar'' (name q)" "\<not> child_of (bp @ [''plugins'', ''old'']) q"
        by (auto simp: y_def name_def ends_with_def child_of_def butlast_append)
      with zy show ?thesis by (simp add: unlocked_def z_def y_def x_def)
    next
      case True
      with zy assms have "x q \<noteq> m q" by (simp add: z_def y_def x_def)
      from updates_map_changes[OF this[unfolded x_def]] zy True show ?thesis
        by (auto simp: z_def y_def x_def)
    qed
  qed
qed

text \<open>The purges find nothing left to remove after a run.\<close>

lemma logs_map_none_left: "(\<And>q. \<not> logs_left bp m q) \<Longrightarrow> logs_map bp m = m"
  by (rule ext) (auto simp: logs_map_def logs_left_def)

lemma old_map_none_left: "(\<And>q. \<not> jars_left bp m q) \<Longrightarrow> old_map bp m = m"
  by (rule ext) (auto simp: old_map_def jars_left_def)

lemma purged:
  "\<not> logs_left bp (old_map bp (logs_map bp m)) q" "\<not> jars_left bp (old_map bp (logs_map bp m)) q"
  by (auto simp: logs_left_def jars_left_def old_map_def logs_map_def unlocked_def)

lemma install_none_left:
  fixes m :: pmap and bp dj ps :: path
  defines "z \<equiv> plugins_map bp ps (darkbot_map bp dj (updates_map bp m))"
  assumes "\<And>q. \<not> logs_left bp m q" "\<And>q. \<not> jars_left bp m q"
  shows "\<not> logs_left bp z q" "\<not> jars_left bp z q"
proof -
  note ch = install_changes[of bp ps dj m, folded z_def]
  have dir: "m p = Some Dir" if "z p = Some Dir" "p \<noteq> bp @ [''plugins'']"
      "p \<noteq> bp @ [''plugins'', ''updates'']" for p
    using ch[of p] that by (cases "z p = m p") (auto simp: unlocked_def)
  show "\<not> logs_left bp z q"
  proof
    assume a: "logs_left bp z q"
    then have "m (bp @ [''logs'']) = Some Dir" by (intro dir) (simp_all add: logs_left_def)
    moreover from a have "z q = m q"
      using ch[of q] ends_with_jar_not_log[of "name q"]
      by (cases "z q = m q") (auto simp: logs_left_def unlocked_def)
    ultimately have "logs_left bp m q" using a by (simp add: logs_left_def unlocked_def)
    with assms(2) show False by simp
  qed
  show "\<not> jars_left bp z q"
  proof
    assume a: "jars_left bp z q"
    then have "m (bp @ [''plugins'', ''old'']) = Some Dir"
      by (intro dir) (simp_all add: jars_left_def)
    moreover from a have "z q = m q"
      using ch[of q] by (cases "z q = m q") (auto simp: jars_left_def unlocked_def)
    ultimately have "jars_left bp m q" using a by (simp add: jars_left_def unlocked_def)
    with assms(3) show False by simp
  qed
qed

lemma process_map_twice:
  assumes "wf_map m"
  shows "process_map bp dj ps (process_map bp dj ps m) = process_map bp dj ps m"
proof -
  define m2 where "m2 = old_map bp (logs_map bp m)"
  define z where "z = plugins_map bp ps (darkbot_map bp dj (updates_map bp m2))"
  have z: "process_map bp dj ps m = z" by (simp add: process_map_def z_def m2_def)
  have "\<not> logs_left bp z q" "\<not> jars_left bp z q" for q
    unfolding z_def by (rule install_none_left; simp add: m2_def purged)+
  then have "logs_map bp z = z" "old_map bp z = z"
    by (simp_all add: logs_map_none_left old_map_none_left)
  then have "process_map bp dj ps z = plugins_map bp ps (darkbot_map bp dj (updates_map bp z))"
    by (simp add: process_map_def)
  also have "\<dots> = z"
    unfolding z_def by (rule install_twice) (simp add: m2_def wf_map_purged assms)
  finally show ?thesis by (simp add: z)
qed

lemma process_map_keeps_folder:
  assumes "m bp = Some Dir"
  shows "process_map bp dj ps m bp = Some Dir"
proof -
  have "\<not> strict_prefix (bp @ [''plugins'', ''updates'']) bp"
    by (auto dest: prefix_length_less)
  with assms show ?thesis
    by (simp add: process_map_def plugins_map_dir darkbot_map_dir updates_map_outside)
qed

section \<open>Running the whole procedure twice\<close>

lemma process_map_purged:
  "logs_map bp (process_map bp dj ps m) = process_map bp dj ps m"
  "old_map bp (process_map bp dj ps m) = process_map bp dj ps m"
proof -
  have "\<not> logs_left bp (process_map bp dj ps m) q" "\<not> jars_left bp (process_map bp dj ps m) q" for q
    unfolding process_map_def by (rule install_none_left; simp add: purged)+
  then show "logs_map bp (process_map bp dj ps m) = process_map bp dj ps m"
    "old_map bp (process_map bp dj ps m) = process_map bp dj ps m"
    by (simp_all add: logs_map_none_left old_map_none_left)
qed

section \<open>The application jar is copied only under its own name\<close>




section \<open>The staging folder after it is reset and filled\<close>










section \<open>The folder enumerator and a root that is a file\<close>

text \<open>
  Claim C8 says that \<open>refresh_bot_list\<close> raises for no root path. It tests
  \<open>bots_root.exists()\<close> only, where \<open>validate_paths_and_report\<close> and
  \<open>process_single_bot\<close> also test \<open>is_dir()\<close>: with the path of a regular file
  in the entry field, \<open>bots_root.iterdir()\<close> raises \<open>NotADirectoryError\<close> out of
  the method. No folder need be closed to the user for that.
\<close>

theorem refresh_bot_list_file_root_raises:
  "path_exists (files (world_of bot_fs)) [''src'', ''notdarkbot.jar'']
   \<and> refresh_bot_list [] (Some [''src'', ''notdarkbot.jar'']) (world_of bot_fs)
      = (Some (NotADirectoryError [''src'', ''notdarkbot.jar'']), world_of bot_fs)"
  by (simp add: refresh_bot_list_def stat_exists_def world_of_def bot_fs_def path_exists_def
      is_dir_def lookup_def)

lemma insert_all_open:
  "insert_all [] fs ps w = (None, w\<lparr>listbox := listbox w @ filter (is_dir fs) ps\<rparr>)"
  by (induction ps arbitrary: w) (simp_all add: is_bot_folder_open)

text \<open>
  With a directory as root, and every folder open to the user, the method
  returns normally and the list holds the subdirectories of the root, ordered by
  their names in lower case.
\<close>

lemma refresh_bot_list_directory:
  assumes "is_dir (files w) root"
  shows "fst (refresh_bot_list [] (Some root) w) = None"
    and "listbox (snd (refresh_bot_list [] (Some root) w)) =
      sort_key (\<lambda>p. lower (name p)) (filter (is_dir (files w)) (iterdir (files w) root))"
    and "sorted (map (\<lambda>p. lower (name p)) (listbox (snd (refresh_bot_list [] (Some root) w))))"
    and "set (listbox (snd (refresh_bot_list [] (Some root) w))) =
      {p. child_of root p \<and> is_dir (files w) p}"
proof -
  have e: "path_exists (files w) root" using assms by (simp add: is_dir_def path_exists_def)
  have f: "filter (is_dir (files w))
      (sort_key (\<lambda>p. lower (name p)) (filter (is_dir (files w)) (iterdir (files w) root)))
      = sort_key (\<lambda>p. lower (name p)) (filter (is_dir (files w)) (iterdir (files w) root))"
    by (rule filter_True) simp
  show "fst (refresh_bot_list [] (Some root) w) = None"
    using assms e by (simp add: refresh_bot_list_def stat_exists_def Let_def insert_all_open)
  show l: "listbox (snd (refresh_bot_list [] (Some root) w)) =
      sort_key (\<lambda>p. lower (name p)) (filter (is_dir (files w)) (iterdir (files w) root))"
    using assms e f
    by (simp add: refresh_bot_list_def stat_exists_def Let_def insert_all_open log_info_def)
  show "sorted (map (\<lambda>p. lower (name p)) (listbox (snd (refresh_bot_list [] (Some root) w))))"
    unfolding l by (rule sorted_sort_key)
  show "set (listbox (snd (refresh_bot_list [] (Some root) w))) =
      {p. child_of root p \<and> is_dir (files w) p}"
    unfolding l by (auto simp: in_iterdir is_dir_def)
qed

text \<open>
  A subfolder of the root that may not be searched, here \<open>/bots/b1\<close> under
  \<open>/bots\<close>, makes the method raise too, out of \<open>is_bot_folder\<close>.
\<close>

lemma refresh_bot_list_closed_subfolder:
  "refresh_bot_list [b1] (Some [''bots'']) (world_of logs_fs)
     = (Some (PermissionError (b1 @ [''logs''])), world_of logs_fs)"
  by code_simp

end
